theory Spec2Isabelle
  imports Main "HOL-Library.Sublist"
begin

section \<open>Strings, rules and the engine\<close>

text \<open>
  A Python \<^verbatim>\<open>str\<close> is a sequence of Unicode code points; the Tibetan block lies beyond
  one byte, so a string is a list of code points here. ASCII text is written with
  \<open>asc\<close>, every other character by its code point.
\<close>

type_synonym ustr = "nat list"

definition asc :: "string \<Rightarrow> ustr" where
  "asc s = map of_char s"

text \<open>
  What a call can end with instead of a string. \<open>ReError\<close> is Python's \<^verbatim>\<open>re.error\<close>,
  \<open>OverflowError\<close> the exception the regular-expression parser raises for a repetition
  count of \<open>2^32 - 1\<close> or more, \<open>LoaderError\<close> any failure of the rule loader.
  \<open>Unmodelled\<close> is no exception of the program: it marks a pattern or replacement
  template that uses regular-expression syntax outside the fragment embedded below.
\<close>

datatype failure = ReError | OverflowError | LoaderError | Unmodelled

section \<open>Regular expressions: the fragment of Python's \<^verbatim>\<open>re\<close> that is embedded\<close>

text \<open>
  The engine builds every regular expression by interpolating a rule's pattern into a
  fixed skeleton and hands the text to \<^verbatim>\<open>re.sub\<close>, so the model has a parser from
  pattern text to syntax trees, a backtracking matcher and the substitution loop. The
  fragment covers literals, \<open>.\<close>, character sets with ranges and negation, capturing
  groups, alternation, the greedy quantifiers \<open>* + ? {m,n}\<close> and escaped punctuation.
  Anything else (anchors, \<open>(?...)\<close> groups, escapes of letters and digits, lazy and
  possessive quantifiers, a quantifier over a body that can match the empty string) is
  answered with \<open>Unmodelled\<close>. Characters are given by code point: 92 is the
  backslash, 91 and 93 the square brackets, 40 and 41 the parentheses, 123 and 125 the
  braces, 42 43 63 the quantifiers \<open>* + ?\<close>, 124 the bar, 94 the caret, 36 the dollar,
  46 the dot, 45 the dash and 44 the comma.
\<close>


datatype rx =
    Lit nat
  | Dot
  | Cset bool "(nat \<times> nat) list"
  | Emp
  | Seq rx rx
  | Alt rx rx
  | Rep nat "nat option" rx
  | Grp nat rx

definition is_digit :: "nat \<Rightarrow> bool" where
  "is_digit c \<longleftrightarrow> 48 \<le> c \<and> c \<le> 57"

definition is_ascii_letter :: "nat \<Rightarrow> bool" where
  "is_ascii_letter c \<longleftrightarrow> (65 \<le> c \<and> c \<le> 90) \<or> (97 \<le> c \<and> c \<le> 122)"

definition starts_with :: "nat \<Rightarrow> ustr \<Rightarrow> bool" where
  "starts_with c s = (case s of [] \<Rightarrow> False | x # _ \<Rightarrow> x = c)"

definition MAXREPEAT :: nat where
  "MAXREPEAT = 4294967295"

definition decimal :: "ustr \<Rightarrow> nat" where
  "decimal ds = foldl (\<lambda>n d. 10 * n + (d - 48)) 0 ds"

fun class_escape :: "ustr \<Rightarrow> failure + (nat \<times> ustr)" where
  "class_escape [] = Inl ReError"
| "class_escape (d # rest) =
     (if is_digit d \<or> is_ascii_letter d then Inl Unmodelled else Inr (d, rest))"

fun class_code :: "nat \<Rightarrow> ustr \<Rightarrow> failure + (nat \<times> ustr)" where
  "class_code this rest = (if this = 92 then class_escape rest else Inr (this, rest))"

lemma class_code_length [termination_simp]:
  "class_code this rest = Inr (c, rest') \<Longrightarrow> length rest' \<le> length rest"
  by (cases rest) (auto split: if_splits)

function set_items :: "(nat \<times> nat) list \<Rightarrow> ustr \<Rightarrow> failure + ((nat \<times> nat) list \<times> ustr)" where
  "set_items acc [] = Inl ReError"
| "set_items acc (this # rest) =
     (if this = 93 \<and> acc \<noteq> [] then Inr (acc, rest)
      else case class_code this rest of
        Inl e \<Rightarrow> Inl e
      | Inr (code1, rest1) \<Rightarrow>
          if starts_with 45 rest1 then
            (case tl rest1 of
               [] \<Rightarrow> Inl ReError
             | that # rest2 \<Rightarrow>
                 if that = 93 then Inr (acc @ [(code1, code1), (45, 45)], rest2)
                 else (case class_code that rest2 of
                         Inl e \<Rightarrow> Inl e
                       | Inr (code2, rest3) \<Rightarrow>
                           if code2 < code1 then Inl ReError
                           else set_items (acc @ [(code1, code2)]) rest3))
          else set_items (acc @ [(code1, code1)]) rest1)"
  by pat_completeness auto
termination
proof (relation "measure (\<lambda>(acc, s). length s)", goal_cases)
  case 1
  show ?case by simp
next
  case (2 acc this rest x2 code1 rest1 that rest2 y code2 rest3)
  have "length rest1 \<le> length rest" using 2 class_code_length by metis
  moreover have "length rest2 < length rest1" using 2 by (cases rest1) auto
  moreover have "length rest3 \<le> length rest2" using 2 class_code_length by metis
  ultimately show ?case by simp
next
  case (3 acc this rest x2 code1 rest1)
  have "length rest1 \<le> length rest" using 3 class_code_length by metis
  then show ?case by simp
qed

definition parse_set :: "ustr \<Rightarrow> failure + (bool \<times> (nat \<times> nat) list \<times> ustr)" where
  "parse_set rest =
     (let negate = starts_with 94 rest;
          rest0 = (if negate then tl rest else rest)
      in case set_items [] rest0 of
           Inl e \<Rightarrow> Inl e
         | Inr (items, rest') \<Rightarrow> Inr (negate, items, rest'))"

definition parse_brace :: "ustr \<Rightarrow> failure + (nat \<times> nat option \<times> ustr) option" where
  "parse_brace rest =
     (if starts_with 125 rest then Inr None
      else
        let lo = takeWhile is_digit rest;
            r1 = dropWhile is_digit rest;
            hi = (if starts_with 44 r1 then takeWhile is_digit (tl r1) else lo);
            r2 = (if starts_with 44 r1 then dropWhile is_digit (tl r1) else r1)
        in if \<not> starts_with 125 r2 then Inr None
           else if tl r2 = [92] then Inl ReError
           else if lo \<noteq> [] \<and> MAXREPEAT \<le> decimal lo then Inl OverflowError
           else if hi \<noteq> [] \<and> MAXREPEAT \<le> decimal hi then Inl OverflowError
           else if hi \<noteq> [] \<and> decimal hi < decimal lo then Inl ReError
           else Inr (Some (decimal lo, if hi = [] then None else Some (decimal hi), tl r2)))"

type_synonym frame = "nat \<times> rx list \<times> rx list"

definition mk_seq :: "rx list \<Rightarrow> rx" where
  "mk_seq ritems = foldl (\<lambda>acc item. Seq item acc) Emp ritems"

definition mk_alt :: "rx list \<Rightarrow> rx \<Rightarrow> rx" where
  "mk_alt rbranches final = foldl (\<lambda>acc b. Alt b acc) final rbranches"

fun close_frame :: "frame \<Rightarrow> rx" where
  "close_frame (gid, rbranches, ritems) = mk_alt rbranches (mk_seq ritems)"

fun push :: "rx \<Rightarrow> frame list \<Rightarrow> frame list" where
  "push item [] = []"
| "push item ((gid, rbranches, ritems) # st) = (gid, rbranches, item # ritems) # st"

fun new_branch :: "frame list \<Rightarrow> frame list" where
  "new_branch [] = []"
| "new_branch ((gid, rbranches, ritems) # st) = (gid, mk_seq ritems # rbranches, []) # st"

fun is_rep :: "rx \<Rightarrow> bool" where
  "is_rep (Rep lo hi r) = True"
| "is_rep _ = False"

fun repeat :: "nat \<Rightarrow> nat option \<Rightarrow> ustr \<Rightarrow> frame list \<Rightarrow> failure + frame list" where
  "repeat lo hi rest ((gid, rbranches, item # ritems) # st) =
     (if is_rep item then Inl ReError
      else if starts_with 63 rest \<or> starts_with 43 rest then Inl Unmodelled
      else Inr ((gid, rbranches, Rep lo hi item # ritems) # st))"
| "repeat lo hi rest _ = Inl ReError"

lemma set_items_length:
  "set_items acc s = Inr (items, rest') \<Longrightarrow> length rest' < length s"
proof (induction acc s rule: set_items.induct)
  case (1 acc)
  then show ?case by simp
next
  case (2 acc this rest)
  show ?case
  proof (cases "this = 93 \<and> acc \<noteq> []")
    case True
    with 2(3) show ?thesis by auto
  next
    case False
    then obtain code1 rest1 where c1: "class_code this rest = Inr (code1, rest1)"
      using 2(3) by (auto split: sum.splits simp del: class_code.simps)
    have l1: "length rest1 \<le> length rest" using c1 class_code_length by metis
    show ?thesis
    proof (cases "starts_with 45 rest1")
      case sw: True
      then obtain that rest2 where r1: "rest1 = 45 # that # rest2"
        using 2(3) False c1 by (cases rest1; cases "tl rest1") (auto simp: starts_with_def simp del: class_code.simps)
      show ?thesis
      proof (cases "that = 93")
        case True
        with 2(3) False c1 sw r1 l1 show ?thesis by (auto simp del: class_code.simps)
      next
        case nt: False
        then obtain code2 rest3 where c2: "class_code that rest2 = Inr (code2, rest3)"
          using 2(3) False c1 sw r1 by (auto split: sum.splits simp del: class_code.simps)
        have l3: "length rest3 \<le> length rest2" using c2 class_code_length by metis
        have ok: "\<not> code2 < code1" and rec: "set_items (acc @ [(code1, code2)]) rest3 = Inr (items, rest')"
          using 2(3) False c1 sw r1 nt c2 by (auto split: if_splits simp del: class_code.simps)
        have "length rest' < length rest3"
          using 2(1) [OF False c1 refl sw _ nt c2 refl ok rec] r1 by simp
        with l1 l3 r1 show ?thesis by simp
      qed
    next
      case sw: False
      then have rec: "set_items (acc @ [(code1, code1)]) rest1 = Inr (items, rest')"
        using 2(3) False c1 by (auto simp del: class_code.simps)
      have "length rest' < length rest1" using 2(2) [OF False c1 refl sw rec] .
      with l1 show ?thesis by simp
    qed
  qed
qed

lemma parse_set_length [termination_simp]:
  "parse_set rest = Inr (neg, items, rest') \<Longrightarrow> length rest' < Suc (length rest)"
  by (auto simp: parse_set_def Let_def split: sum.splits if_splits dest!: set_items_length)

lemma parse_brace_length [termination_simp]:
  "parse_brace rest = Inr (Some (lo, hi, rest')) \<Longrightarrow> length rest' < Suc (length rest)"
proof -
  assume a: "parse_brace rest = Inr (Some (lo, hi, rest'))"
  have d: "length (dropWhile is_digit xs) \<le> length xs" for xs :: ustr
    by (rule length_dropWhile_le)
  have t: "length (tl xs) \<le> length xs" for xs :: ustr by simp
  let ?r1 = "dropWhile is_digit rest"
  let ?r2 = "if starts_with 44 ?r1 then dropWhile is_digit (tl ?r1) else ?r1"
  have "rest' = tl ?r2" using a by (auto simp: parse_brace_def Let_def split: if_splits)
  moreover have "length ?r2 \<le> length rest"
    using d [of rest] d [of "tl ?r1"] t [of ?r1] by (auto simp del: length_tl)
  ultimately show ?thesis using t [of ?r2] by (simp del: length_tl)
qed

function parse_re :: "frame list \<Rightarrow> nat \<Rightarrow> ustr \<Rightarrow> failure + (rx \<times> nat)" where
  "parse_re st n [] = (case st of [f] \<Rightarrow> Inr (close_frame f, n) | _ \<Rightarrow> Inl ReError)"
| "parse_re st n (c # rest) =
     (if c = 92 then
        (case rest of
           [] \<Rightarrow> Inl ReError
         | d # rest' \<Rightarrow>
             if is_digit d \<or> is_ascii_letter d then Inl Unmodelled
             else parse_re (push (Lit d) st) n rest')
      else if c = 91 then
        (case parse_set rest of
           Inl e \<Rightarrow> Inl e
         | Inr (negate, items, rest') \<Rightarrow> parse_re (push (Cset negate items) st) n rest')
      else if c = 42 then
        (case repeat 0 None rest st of Inl e \<Rightarrow> Inl e | Inr st' \<Rightarrow> parse_re st' n rest)
      else if c = 43 then
        (case repeat 1 None rest st of Inl e \<Rightarrow> Inl e | Inr st' \<Rightarrow> parse_re st' n rest)
      else if c = 63 then
        (case repeat 0 (Some 1) rest st of Inl e \<Rightarrow> Inl e | Inr st' \<Rightarrow> parse_re st' n rest)
      else if c = 123 then
        (case parse_brace rest of
           Inl e \<Rightarrow> Inl e
         | Inr None \<Rightarrow> parse_re (push (Lit 123) st) n rest
         | Inr (Some (lo, hi, rest')) \<Rightarrow>
             (case repeat lo hi rest' st of Inl e \<Rightarrow> Inl e | Inr st' \<Rightarrow> parse_re st' n rest'))
      else if c = 46 then parse_re (push Dot st) n rest
      else if c = 40 then
        (if starts_with 63 rest then Inl Unmodelled
         else parse_re ((Suc n, [], []) # st) (Suc n) rest)
      else if c = 41 then
        (case st of
           f # g # st' \<Rightarrow> parse_re (push (Grp (fst f) (close_frame f)) (g # st')) n rest
         | _ \<Rightarrow> Inl ReError)
      else if c = 124 then parse_re (new_branch st) n rest
      else if c = 94 \<or> c = 36 then Inl Unmodelled
      else parse_re (push (Lit c) st) n rest)"
  by pat_completeness auto
termination
  by (relation "measure (\<lambda>(st, n, s). length s)") (auto dest: parse_set_length parse_brace_length)

fun nullable :: "rx \<Rightarrow> bool" where
  "nullable (Lit c) = False"
| "nullable Dot = False"
| "nullable (Cset negate items) = False"
| "nullable Emp = True"
| "nullable (Seq a b) = (nullable a \<and> nullable b)"
| "nullable (Alt a b) = (nullable a \<or> nullable b)"
| "nullable (Rep lo hi r) = (lo = 0 \<or> nullable r)"
| "nullable (Grp n r) = nullable r"

fun rep_ok :: "rx \<Rightarrow> bool" where
  "rep_ok (Seq a b) = (rep_ok a \<and> rep_ok b)"
| "rep_ok (Alt a b) = (rep_ok a \<and> rep_ok b)"
| "rep_ok (Rep lo hi r) = (\<not> nullable r \<and> rep_ok r)"
| "rep_ok (Grp n r) = rep_ok r"
| "rep_ok _ = True"

definition compile_re :: "ustr \<Rightarrow> failure + (rx \<times> nat)" where
  "compile_re pattern =
     (case parse_re [(0, [], [])] 0 pattern of
        Inl e \<Rightarrow> Inl e
      | Inr (r, groups) \<Rightarrow> if rep_ok r then Inr (r, groups) else Inl Unmodelled)"


section \<open>Matching\<close>

text \<open>
  A match attempt at one position yields the list of all ways to match, in the order a
  backtracking matcher tries them: each is the rest of the subject after the match and
  the groups captured. The head of the list is the match Python reports.
\<close>


type_synonym caps = "nat \<Rightarrow> ustr option"

fun in_ranges :: "nat \<Rightarrow> (nat \<times> nat) list \<Rightarrow> bool" where
  "in_ranges x [] = False"
| "in_ranges x ((lo, hi) # rs) = ((lo \<le> x \<and> x \<le> hi) \<or> in_ranges x rs)"

fun rsize :: "rx \<Rightarrow> nat" where
  "rsize (Seq a b) = Suc (rsize a + rsize b)"
| "rsize (Alt a b) = Suc (rsize a + rsize b)"
| "rsize (Rep lo hi r) = Suc (rsize r)"
| "rsize (Grp n r) = Suc (rsize r)"
| "rsize _ = 0"

function rmatch :: "rx \<Rightarrow> ustr \<Rightarrow> caps \<Rightarrow> (ustr \<times> caps) list" where
  "rmatch (Lit c) s g = (case s of [] \<Rightarrow> [] | x # xs \<Rightarrow> if x = c then [(xs, g)] else [])"
| "rmatch Dot s g = (case s of [] \<Rightarrow> [] | x # xs \<Rightarrow> if x \<noteq> 10 then [(xs, g)] else [])"
| "rmatch (Cset negate items) s g =
     (case s of [] \<Rightarrow> [] | x # xs \<Rightarrow> if in_ranges x items \<noteq> negate then [(xs, g)] else [])"
| "rmatch Emp s g = [(s, g)]"
| "rmatch (Seq a b) s g = concat (map (\<lambda>(s', g'). rmatch b s' g') (rmatch a s g))"
| "rmatch (Alt a b) s g = rmatch a s g @ rmatch b s g"
| "rmatch (Grp n r) s g =
     map (\<lambda>(s', g'). (s', g'(n \<mapsto> take (length s - length s') s))) (rmatch r s g)"
| "rmatch (Rep lo hi r) s g =
     (if hi = Some 0 then []
      else concat (map (\<lambda>(s', g').
                     if length s' < length s
                     then rmatch (Rep (lo - 1) (map_option (\<lambda>h. h - 1) hi) r) s' g'
                     else [])
                   (rmatch r s g)))
     @ (if lo = 0 then [(s, g)] else [])"
  by pat_completeness auto
termination
  by (relation "measures [\<lambda>(r, s, g). rsize r, \<lambda>(r, s, g). length s]") auto

declare rmatch.simps(8) [simp del]

lemma rmatch_suffix: "(s', g') \<in> set (rmatch r s g) \<Longrightarrow> suffix s' s"
proof (induction r s g arbitrary: s' g' rule: rmatch.induct)
  case (5 a b s g)
  then show ?case by (fastforce intro: suffix_order.trans)
next
  case (8 lo hi r s g)
  from 8(3) consider
    (iter) s1 g1 where "hi \<noteq> Some 0" "(s1, g1) \<in> set (rmatch r s g)" "length s1 < length s"
      "(s', g') \<in> set (rmatch (Rep (lo - 1) (map_option (\<lambda>h. h - 1) hi) r) s1 g1)"
    | (stop) "s' = s"
    by (subst (asm) rmatch.simps(8)) (auto split: if_splits)
  then show ?case
  proof cases
    case iter
    have "suffix s1 s" using 8(1) [OF iter(1) iter(2)] .
    moreover have "suffix s' s1" using 8(2) [OF iter(1) iter(2) refl iter(3) iter(4)] .
    ultimately show ?thesis by (rule suffix_order.trans [rotated])
  next
    case stop
    then show ?thesis by simp
  qed
qed (auto split: list.splits if_splits intro: suffix_ConsI)

lemma rmatch_shorter:
  assumes "(s', g') \<in> set (rmatch r s g)"
  shows "length s' < length s \<or> s' = s"
proof -
  from assms have "suffix s' s" by (rule rmatch_suffix)
  then obtain p where "s = p @ s'" by (auto simp: suffix_def)
  then show ?thesis by (cases p) auto
qed

lemma find_match_shorter:
  assumes "find (\<lambda>(s', g'). \<not> must_advance \<or> s' \<noteq> s) (rmatch r s g) = Some (s', g')"
  shows "length s' < length s \<or> (s' = s \<and> \<not> must_advance)"
proof -
  from assms have "(s', g') \<in> set (rmatch r s g)" and "\<not> must_advance \<or> s' \<noteq> s"
    by (auto simp: find_Some_iff in_set_conv_nth)
  then show ?thesis using rmatch_shorter by blast
qed

function sub_loop :: "rx \<Rightarrow> (ustr \<Rightarrow> caps \<Rightarrow> ustr) \<Rightarrow> bool \<Rightarrow> ustr \<Rightarrow> ustr" where
  "sub_loop r f must_advance s =
     (case find (\<lambda>(s', g'). \<not> must_advance \<or> s' \<noteq> s) (rmatch r s Map.empty) of
        Some (s', g') \<Rightarrow>
          f (take (length s - length s') s) g' @ sub_loop r f (s' = s) s'
      | None \<Rightarrow> (case s of [] \<Rightarrow> [] | c # cs \<Rightarrow> c # sub_loop r f False cs))"
  by pat_completeness auto
termination
proof (relation "measures [\<lambda>(r, f, a, s). length s, \<lambda>(r, f, a, s). if a then 0 else 1]",
    goal_cases)
  case 1
  show ?case by simp
next
  case (2 r f must_advance s c cs)
  then show ?case by simp
next
  case (3 r f must_advance s x2 s' g')
  then have "find (\<lambda>(s', g'). \<not> must_advance \<or> s' \<noteq> s) (rmatch r s Map.empty) = Some (s', g')"
    by simp
  from find_match_shorter [OF this] show ?case by auto
qed

declare sub_loop.simps [simp del]

section \<open>Replacement templates\<close>

datatype titem = TChr nat | TGrp nat

definition template_escape :: "nat \<Rightarrow> nat \<Rightarrow> ustr \<Rightarrow> failure + titem list" where
  "template_escape groups d rest =
     (if d = 103 \<or> d = 48 then Inl Unmodelled
      else if is_digit d then
        (if rest \<noteq> [] \<and> is_digit (hd rest) then Inl Unmodelled
         else if groups < d - 48 then Inl ReError
         else Inr [TGrp (d - 48)])
      else if d = 97 then Inr [TChr 7]
      else if d = 98 then Inr [TChr 8]
      else if d = 102 then Inr [TChr 12]
      else if d = 110 then Inr [TChr 10]
      else if d = 114 then Inr [TChr 13]
      else if d = 116 then Inr [TChr 9]
      else if d = 118 then Inr [TChr 11]
      else if d = 92 then Inr [TChr 92]
      else if is_ascii_letter d then Inl ReError
      else Inr [TChr 92, TChr d])"

fun parse_template :: "nat \<Rightarrow> ustr \<Rightarrow> failure + titem list" where
  "parse_template groups [] = Inr []"
| "parse_template groups [c] = (if c = 92 then Inl ReError else Inr [TChr c])"
| "parse_template groups (c # d # rest) =
     (if c \<noteq> 92 then map_sum id (Cons (TChr c)) (parse_template groups (d # rest))
      else case template_escape groups d rest of
        Inl e \<Rightarrow> Inl e
      | Inr items \<Rightarrow> map_sum id (append items) (parse_template groups rest))"

fun expand :: "titem list \<Rightarrow> caps \<Rightarrow> ustr" where
  "expand [] g = []"
| "expand (TChr c # t) g = c # expand t g"
| "expand (TGrp n # t) g = (case g n of None \<Rightarrow> [] | Some x \<Rightarrow> x) @ expand t g"

definition re_sub :: "ustr \<Rightarrow> ustr \<Rightarrow> ustr \<Rightarrow> failure + ustr" where
  "re_sub pattern repl string =
     (case compile_re pattern of
        Inl e \<Rightarrow> Inl e
      | Inr (r, groups) \<Rightarrow>
          (case parse_template groups repl of
             Inl e \<Rightarrow> Inl e
           | Inr t \<Rightarrow> Inr (sub_loop r (\<lambda>m g. expand t g) False string)))"

definition re_sub_call :: "ustr \<Rightarrow> (ustr \<Rightarrow> caps \<Rightarrow> ustr) \<Rightarrow> ustr \<Rightarrow> failure + ustr" where
  "re_sub_call pattern f string =
     (case compile_re pattern of
        Inl e \<Rightarrow> Inl e
      | Inr (r, groups) \<Rightarrow> Inr (sub_loop r f False string))"





section \<open>String helpers of Python\<close>

function str_replace :: "ustr \<Rightarrow> ustr \<Rightarrow> ustr \<Rightarrow> ustr" where
  "str_replace old new [] = (if old = [] then new else [])"
| "str_replace old new (c # cs) =
     (if old = [] then new @ c # str_replace old new cs
      else if prefix old (c # cs) then new @ str_replace old new (drop (length old) (c # cs))
      else c # str_replace old new cs)"
  by pat_completeness auto
termination
  by (relation "measure (\<lambda>(old, new, s). length s)") auto

definition is_space :: "nat \<Rightarrow> bool" where
  "is_space c \<longleftrightarrow>
     (9 \<le> c \<and> c \<le> 13) \<or> (28 \<le> c \<and> c \<le> 32) \<or> c = 0x85 \<or> c = 0xA0 \<or> c = 0x1680 \<or>
     (0x2000 \<le> c \<and> c \<le> 0x200A) \<or> c = 0x2028 \<or> c = 0x2029 \<or> c = 0x202F \<or>
     c = 0x205F \<or> c = 0x3000"

definition strip :: "ustr \<Rightarrow> ustr" where
  "strip s = rev (dropWhile is_space (rev (dropWhile is_space s)))"

definition str_upper :: "(nat \<Rightarrow> ustr) \<Rightarrow> ustr \<Rightarrow> ustr" where
  "str_upper upper s = concat (map upper s)"

section \<open>The rewrite engine\<close>

record rule =
  tibetan :: ustr
  transliteration :: ustr
  phonetics :: ustr

record engine =
  replacements :: "rule list"

text \<open>
  The collaborators that are not part of the engine are parameters: the rule loader (it
  reads a file, so it may fail), the two normalizer functions, and the upper-case table
  of Unicode (\<^verbatim>\<open>str.upper\<close> of one character, which may yield several).
\<close>

type_synonym loader = "ustr option \<Rightarrow> failure + rule list"
type_synonym tibetan_normalizer = "ustr \<Rightarrow> bool \<Rightarrow> ustr"

definition init_engine :: "loader \<Rightarrow> tibetan_normalizer \<Rightarrow> ustr option \<Rightarrow> failure + engine" where
  "init_engine load_replacements normalize_tibetan csv_path =
     (case load_replacements csv_path of
        Inl e \<Rightarrow> Inl e
      | Inr raw_replacements \<Rightarrow>
          Inr \<lparr>replacements =
                 map (\<lambda>entry. \<lparr>tibetan = normalize_tibetan (tibetan entry) False,
                                transliteration = transliteration entry,
                                phonetics = phonetics entry\<rparr>) raw_replacements\<rparr>)"

abbreviation tshek :: nat where "tshek \<equiv> 0x0F0B"

definition boundary_markers :: ustr where
  "boundary_markers = [0x0F0B, 0x0F0D, 0x0F11, 0x0F14]"

definition vowel_markers :: ustr where
  "vowel_markers = [0x0F71, 0x0F72, 0x0F74, 0x0F7A, 0x0F7C, 0x0F7E, 0x0F80]"

definition replacement_of :: "(ustr \<Rightarrow> ustr) \<Rightarrow> ustr \<Rightarrow> rule \<Rightarrow> ustr" where
  "replacement_of normalize_iast mode word =
     (if mode = asc ''phonetics''
      then (if phonetics word \<noteq> [] then phonetics word else normalize_iast (transliteration word))
      else transliteration word)"

text \<open>
  The regular expressions and replacement templates of the rule loop, as the f-strings
  of the source build them: the rule's pattern is pasted into the text before the text
  is parsed.
\<close>

definition suffix_regex :: "ustr \<Rightarrow> ustr" where
  "suffix_regex pattern =
     [40] @ pattern @ [91, 94] @ boundary_markers @ [93, 42, 41] @ [tshek, 0x0F53, 0x0F71, 0x0F7E]"

definition suffix_repl :: "ustr \<Rightarrow> ustr" where
  "suffix_repl mode =
     [92, 49, tshek, 94, 94, 94]
       @ (if mode = asc ''phonetics'' then asc ''nam'' else [110, 0x0101, 0x1E43])"

definition boundary_regex :: "ustr \<Rightarrow> ustr" where
  "boundary_regex pattern = pattern @ [91] @ boundary_markers @ [93]"

definition visarga_regex :: "ustr \<Rightarrow> ustr" where
  "visarga_regex pattern = pattern @ [0x0F7F]"

definition visarga_repl :: "ustr \<Rightarrow> ustr \<Rightarrow> ustr" where
  "visarga_repl mode base = base @ (if mode = asc ''phonetics'' then asc ''ah'' else [97, 0x1E25])"

definition vowel_regex :: "ustr \<Rightarrow> ustr" where
  "vowel_regex pattern = pattern @ [40, 91] @ vowel_markers @ [93, 41]"

text \<open>
  The sub-steps of one rule. \<^verbatim>\<open>except re.error: pass\<close> keeps the text as it was before
  the call that raised; any other failure leaves the method. The three substitutions of
  the inherent-vowel group share one \<^verbatim>\<open>try\<close>: when one raises, the ones before it have
  already been applied and the ones after it are not run.
\<close>

definition nam_suffix :: "ustr \<Rightarrow> ustr \<Rightarrow> ustr \<Rightarrow> failure + ustr" where
  "nam_suffix mode pattern replaced =
     (case re_sub (suffix_regex pattern) (suffix_repl mode) replaced of
        Inl ReError \<Rightarrow> Inr replaced
      | Inl e \<Rightarrow> Inl e
      | Inr replaced1 \<Rightarrow> Inr replaced1)"

definition inherent_a :: "ustr \<Rightarrow> ustr \<Rightarrow> ustr \<Rightarrow> ustr \<Rightarrow> failure + ustr" where
  "inherent_a mode pattern replacement replaced =
     (let base = butlast replacement in
      case re_sub (boundary_regex pattern) (replacement @ [32]) replaced of
        Inl ReError \<Rightarrow> Inr replaced
      | Inl e \<Rightarrow> Inl e
      | Inr replaced1 \<Rightarrow>
          (case re_sub (visarga_regex pattern) (visarga_repl mode base) replaced1 of
             Inl ReError \<Rightarrow> Inr replaced1
           | Inl e \<Rightarrow> Inl e
           | Inr replaced2 \<Rightarrow>
               (case re_sub (vowel_regex pattern) (base @ [92, 49]) replaced2 of
                  Inl ReError \<Rightarrow> Inr replaced2
                | Inl e \<Rightarrow> Inl e
                | Inr replaced3 \<Rightarrow> Inr replaced3)))"

definition general_replacement :: "ustr \<Rightarrow> ustr \<Rightarrow> ustr \<Rightarrow> failure + ustr" where
  "general_replacement pattern replacement replaced =
     (case re_sub pattern replacement replaced of
        Inl ReError \<Rightarrow> Inr (str_replace pattern replacement replaced)
      | Inl e \<Rightarrow> Inl e
      | Inr replaced1 \<Rightarrow> Inr replaced1)"

definition apply_rule :: "(ustr \<Rightarrow> ustr) \<Rightarrow> ustr \<Rightarrow> rule \<Rightarrow> ustr \<Rightarrow> failure + ustr" where
  "apply_rule normalize_iast mode word replaced =
     (let replacement = replacement_of normalize_iast mode word;
          pattern = tibetan word
      in if pattern = [] then Inr replaced
         else case nam_suffix mode pattern replaced of
           Inl e \<Rightarrow> Inl e
         | Inr replaced1 \<Rightarrow>
             (case (if replacement \<noteq> [] \<and> last replacement = 97
                    then inherent_a mode pattern replacement replaced1
                    else Inr replaced1) of
                Inl e \<Rightarrow> Inl e
              | Inr replaced2 \<Rightarrow> general_replacement pattern replacement replaced2))"

fun apply_rules :: "(ustr \<Rightarrow> ustr) \<Rightarrow> ustr \<Rightarrow> rule list \<Rightarrow> ustr \<Rightarrow> failure + ustr" where
  "apply_rules normalize_iast mode [] replaced = Inr replaced"
| "apply_rules normalize_iast mode (word # ws) replaced =
     (case apply_rule normalize_iast mode word replaced of
        Inl e \<Rightarrow> Inl e
      | Inr replaced1 \<Rightarrow> apply_rules normalize_iast mode ws replaced1)"

definition strip_placeholder :: "ustr \<Rightarrow> failure + ustr" where
  "strip_placeholder result = re_sub [32, 63, 92, 94, 92, 94, 92, 94] [] result"

definition vowel_cleanup :: "ustr \<Rightarrow> failure + ustr" where
  "vowel_cleanup result =
     (case re_sub ([97, 40, 91] @ [0x0101, 0x012B, 0x016B, 0x1E5B, 0x1E5D, 0x1E37, 0x1E39] @ [93, 41])
                  [92, 49] result of
        Inl e \<Rightarrow> Inl e
      | Inr result1 \<Rightarrow> re_sub ([97, 40, 91] @ [0x1E43, 0x1E41] @ [93, 41]) [92, 49] result1)"

definition capitalization :: "(nat \<Rightarrow> ustr) \<Rightarrow> bool \<Rightarrow> ustr \<Rightarrow> failure + ustr" where
  "capitalization upper capitalize result =
     (if capitalize then
        re_sub_call (asc '' {2,}(.)'')
          (\<lambda>m g. asc ''    '' @ str_upper upper (case g 1 of None \<Rightarrow> [] | Some x \<Rightarrow> x))
          (case result of [] \<Rightarrow> [] | c # cs \<Rightarrow> upper c @ cs)
      else re_sub (asc '' {2,}'') (asc ''    '') result)"

definition finish :: "(nat \<Rightarrow> ustr) \<Rightarrow> bool \<Rightarrow> ustr \<Rightarrow> ustr \<Rightarrow> failure + ustr" where
  "finish upper capitalize anusvara_style replaced =
     (case strip_placeholder (str_replace [tshek] [32] replaced) of
        Inl e \<Rightarrow> Inl e
      | Inr result1 \<Rightarrow>
          (case vowel_cleanup result1 of
             Inl e \<Rightarrow> Inl e
           | Inr result2 \<Rightarrow>
               (case capitalization upper capitalize result2 of
                  Inl e \<Rightarrow> Inl e
                | Inr result3 \<Rightarrow>
                    Inr (strip (if anusvara_style = [0x1E41]
                                then str_replace [0x1E43] [0x1E41] result3
                                else result3)))))"

definition transliterate ::
    "(ustr \<Rightarrow> bool \<Rightarrow> ustr) \<Rightarrow> (ustr \<Rightarrow> ustr) \<Rightarrow> (nat \<Rightarrow> ustr) \<Rightarrow> engine \<Rightarrow>
     ustr \<Rightarrow> ustr \<Rightarrow> bool \<Rightarrow> ustr \<Rightarrow> failure + ustr" where
  "transliterate normalize_tibetan normalize_iast upper self text mode capitalize anusvara_style =
     (case apply_rules normalize_iast mode (replacements self) (normalize_tibetan text True) of
        Inl e \<Rightarrow> Inl e
      | Inr replaced \<Rightarrow> finish upper capitalize anusvara_style replaced)"


text \<open>
  The method as a state transformer on the engine object: it reads
  \<^verbatim>\<open>self.replacements\<close> and assigns to no attribute, so the object is returned as it
  was received.
\<close>

definition transliterate_call ::
    "(ustr \<Rightarrow> bool \<Rightarrow> ustr) \<Rightarrow> (ustr \<Rightarrow> ustr) \<Rightarrow> (nat \<Rightarrow> ustr) \<Rightarrow>
     ustr \<Rightarrow> ustr \<Rightarrow> bool \<Rightarrow> ustr \<Rightarrow> engine \<Rightarrow> (failure + ustr) \<times> engine" where
  "transliterate_call normalize_tibetan normalize_iast upper text mode capitalize anusvara_style self =
     (transliterate normalize_tibetan normalize_iast upper self text mode capitalize anusvara_style,
      self)"

section \<open>The process-wide cached engine\<close>

text \<open>
  The module keeps one global, \<^verbatim>\<open>_default_transliterator\<close>. Objects have identity, so
  the model has a heap of engine objects, a reference being an index into it; the
  global holds a reference or \<^verbatim>\<open>None\<close>.
\<close>

record world =
  heap :: "engine list"
  default_transliterator :: "nat option"

definition get_transliterator ::
    "loader \<Rightarrow> tibetan_normalizer \<Rightarrow> ustr option \<Rightarrow> world \<Rightarrow> (failure + nat) \<times> world" where
  "get_transliterator load_replacements normalize_tibetan csv_path w =
     (case default_transliterator w of
        None \<Rightarrow>
          (case init_engine load_replacements normalize_tibetan csv_path of
             Inl e \<Rightarrow> (Inl e, w)
           | Inr obj \<Rightarrow>
               (Inr (length (heap w)),
                w\<lparr>heap := heap w @ [obj], default_transliterator := Some (length (heap w))\<rparr>))
      | Some r \<Rightarrow> (Inr r, w))"

text \<open>A sequence of calls, each with its own path argument, threading the world.\<close>

fun calls ::
    "loader \<Rightarrow> tibetan_normalizer \<Rightarrow> ustr option list \<Rightarrow> world \<Rightarrow> (failure + nat) list \<times> world" where
  "calls load_replacements normalize_tibetan [] w = ([], w)"
| "calls load_replacements normalize_tibetan (p # ps) w =
     (case get_transliterator load_replacements normalize_tibetan p w of
        (r, w') \<Rightarrow>
          (case calls load_replacements normalize_tibetan ps w' of
             (rs, w'') \<Rightarrow> (r # rs, w'')))"

section \<open>Auxiliary notions for the proofs\<close>

text \<open>Every captured group lies within a set of characters; the literal characters of a template.\<close>

definition caps_in :: "nat set \<Rightarrow> caps \<Rightarrow> bool" where
  "caps_in A g \<longleftrightarrow> (\<forall>n x. g n = Some x \<longrightarrow> set x \<subseteq> A)"

fun tchars :: "titem list \<Rightarrow> nat set" where
  "tchars [] = {}"
| "tchars (TChr c # t) = insert c (tchars t)"
| "tchars (TGrp n # t) = tchars t"

text \<open>
  What the two substitutions of the vowel-collision cleanup compute, as a plain
  recursion: an \<open>a\<close> (97) immediately before a character of the class is dropped, and
  the scan goes on behind that character. \<open>a_before P s\<close> says that \<open>s\<close> has an \<open>a\<close>
  immediately before a character of \<open>P\<close>, \<open>aa_before P s\<close> that it has two
  consecutive \<open>a\<close> immediately before one.
\<close>

fun del_a :: "(nat \<Rightarrow> bool) \<Rightarrow> ustr \<Rightarrow> ustr" where
  "del_a P (x # y # s) = (if x = 97 \<and> P y then y # del_a P s else x # del_a P (y # s))"
| "del_a P [x] = [x]"
| "del_a P [] = []"

fun a_before :: "(nat \<Rightarrow> bool) \<Rightarrow> ustr \<Rightarrow> bool" where
  "a_before P (x # y # s) = ((x = 97 \<and> P y) \<or> a_before P (y # s))"
| "a_before P s = False"

fun aa_before :: "(nat \<Rightarrow> bool) \<Rightarrow> ustr \<Rightarrow> bool" where
  "aa_before P (x # y # z # s) = ((x = 97 \<and> y = 97 \<and> P z) \<or> aa_before P (y # z # s))"
| "aa_before P s = False"

definition long_vowel :: "nat \<Rightarrow> bool" where
  "long_vowel y \<longleftrightarrow> y \<in> {0x0101, 0x012B, 0x016B, 0x1E5B, 0x1E5D, 0x1E37, 0x1E39}"

definition anusvara :: "nat \<Rightarrow> bool" where
  "anusvara y \<longleftrightarrow> y \<in> {0x1E43, 0x1E41}"

text \<open>
  Whether a call of \<^verbatim>\<open>re.sub\<close> raises depends on the pattern and the replacement
  only, never on the subject: \<open>sub_raises\<close> is what it raises, if anything. A call is
  recoverable when it returns or raises \<^verbatim>\<open>re.error\<close>, which the engine catches; a rule
  is recoverable when each call made for it is.
\<close>

definition sub_raises :: "ustr \<Rightarrow> ustr \<Rightarrow> failure option" where
  "sub_raises pattern repl =
     (case compile_re pattern of
        Inl e \<Rightarrow> Some e
      | Inr (r, groups) \<Rightarrow>
          (case parse_template groups repl of Inl e \<Rightarrow> Some e | Inr t \<Rightarrow> None))"

definition recoverable :: "ustr \<Rightarrow> ustr \<Rightarrow> bool" where
  "recoverable pattern repl \<longleftrightarrow>
     sub_raises pattern repl = None \<or> sub_raises pattern repl = Some ReError"

definition rule_recoverable :: "(ustr \<Rightarrow> ustr) \<Rightarrow> ustr \<Rightarrow> rule \<Rightarrow> bool" where
  "rule_recoverable normalize_iast mode word =
     (let replacement = replacement_of normalize_iast mode word;
          pattern = tibetan word;
          base = butlast replacement
      in pattern = [] \<or>
         (recoverable (suffix_regex pattern) (suffix_repl mode) \<and>
          (replacement \<noteq> [] \<and> last replacement = 97 \<longrightarrow>
             recoverable (boundary_regex pattern) (replacement @ [32]) \<and>
             recoverable (visarga_regex pattern) (visarga_repl mode base) \<and>
             recoverable (vowel_regex pattern) (base @ [92, 49])) \<and>
          recoverable pattern replacement))"

text \<open>
  The expressions that decide whether a rule's special sub-steps run at all: the suffix
  expression, the first expression of the inherent-vowel group, and the pattern alone.
\<close>

definition every_expression_fails :: "ustr \<Rightarrow> bool" where
  "every_expression_fails pattern \<longleftrightarrow>
     compile_re (suffix_regex pattern) = Inl ReError \<and>
     compile_re (boundary_regex pattern) = Inl ReError \<and>
     compile_re pattern = Inl ReError"

text \<open>
  The characters with a meaning in a pattern (\<^verbatim>\<open>SPECIAL_CHARS\<close> of Python's parser); a
  pattern without any is a literal string. \<open>lits p r\<close> is the expression "the characters
  of \<open>p\<close>, then \<open>r\<close>".
\<close>

definition special_chars :: "nat set" where
  "special_chars = {46, 92, 91, 123, 40, 41, 42, 43, 63, 94, 36, 124}"

definition literal_pattern :: "ustr \<Rightarrow> bool" where
  "literal_pattern p \<longleftrightarrow> set p \<inter> special_chars = {}"

fun lits :: "ustr \<Rightarrow> rx \<Rightarrow> rx" where
  "lits [] r = r"
| "lits (c # p) r = Seq (Lit c) (lits p r)"

lemmas eval_simps = asc_def starts_with_def template_escape_def mk_seq_def mk_alt_def is_digit_def is_ascii_letter_def
  rmatch.simps(8) sub_loop.simps re_sub_def re_sub_call_def compile_re_def parse_set_def parse_brace_def
  MAXREPEAT_def decimal_def strip_def is_space_def str_upper_def boundary_markers_def vowel_markers_def
  replacement_of_def suffix_regex_def suffix_repl_def boundary_regex_def visarga_regex_def
  visarga_repl_def vowel_regex_def nam_suffix_def inherent_a_def general_replacement_def apply_rule_def
  strip_placeholder_def vowel_cleanup_def capitalization_def finish_def transliterate_def

section \<open>The cached engine is returned by every later call\<close>

lemma get_transliterator_populates:
  "get_transliterator ld nt p w = (Inr r, w1) \<Longrightarrow> default_transliterator w1 = Some r"
  by (auto simp: get_transliterator_def split: option.splits sum.splits)

lemma get_transliterator_hit:
  "default_transliterator w = Some r \<Longrightarrow> get_transliterator ld nt p w = (Inr r, w)"
  by (simp add: get_transliterator_def)

lemma calls_hit:
  "default_transliterator w = Some r \<Longrightarrow>
   calls ld nt ps w = (replicate (length ps) (Inr r), w)"
  by (induction ps) (simp_all add: get_transliterator_hit)

text \<open>
  C8. Once a call of \<^verbatim>\<open>get_transliterator\<close> has constructed the engine and returned the
  reference \<open>r\<close>, every later call returns \<open>r\<close> again and leaves the world (the heap
  object included) as it is, whatever path it is given and whatever the loader would
  now read: the new path is ignored.
\<close>

theorem get_transliterator_cached:
  assumes "get_transliterator ld nt p0 w0 = (Inr r, w1)"
  shows "calls ld' nt' ps w1 = (replicate (length ps) (Inr r), w1)"
  using assms by (intro calls_hit get_transliterator_populates)

theorem get_transliterator_cached_witness:
  "get_transliterator (\<lambda>p. Inr [\<lparr>tibetan = [0x0F56], transliteration = asc ''ba'', phonetics = []\<rparr>])
       (\<lambda>t k. t) None \<lparr>heap = [], default_transliterator = None\<rparr>
     = (Inr 0, \<lparr>heap = [\<lparr>replacements = [\<lparr>tibetan = [0x0F56], transliteration = asc ''ba'', phonetics = []\<rparr>]\<rparr>],
                default_transliterator = Some 0\<rparr>)
   \<and> calls (\<lambda>p. Inl LoaderError) (\<lambda>t k. []) [Some (asc ''other.csv''), None]
         \<lparr>heap = [\<lparr>replacements = [\<lparr>tibetan = [0x0F56], transliteration = asc ''ba'', phonetics = []\<rparr>]\<rparr>],
          default_transliterator = Some 0\<rparr>
     = ([Inr 0, Inr 0],
        \<lparr>heap = [\<lparr>replacements = [\<lparr>tibetan = [0x0F56], transliteration = asc ''ba'', phonetics = []\<rparr>]\<rparr>],
         default_transliterator = Some 0\<rparr>)"
proof -
  have first: "get_transliterator (\<lambda>p. Inr [\<lparr>tibetan = [0x0F56], transliteration = asc ''ba'', phonetics = []\<rparr>])
       (\<lambda>t k. t) None \<lparr>heap = [], default_transliterator = None\<rparr>
     = (Inr 0, \<lparr>heap = [\<lparr>replacements = [\<lparr>tibetan = [0x0F56], transliteration = asc ''ba'', phonetics = []\<rparr>]\<rparr>],
                default_transliterator = Some 0\<rparr>)"
    by (simp add: get_transliterator_def init_engine_def)
  from get_transliterator_cached [OF first, of "\<lambda>p. Inl LoaderError" "\<lambda>t k. []" "[Some (asc ''other.csv''), None]"]
  show ?thesis using first by simp
qed



section \<open>The two documented scenarios\<close>

text \<open>
  C2. With the single rule \<open>{tibetan: U+0F56 U+0F5B U+0FB2, transliteration: vajra,
  phonetics: empty}\<close> and a Tibetan normalizer that leaves the input as it is, the input
  "pattern followed by tshek" in mode \<open>iast\<close>, not capitalized, anusvara style U+1E43,
  yields \<open>vajra\<close>.
\<close>

theorem scenario_vajra:
  assumes "normalize_tibetan [0x0F56, 0x0F5B, 0x0FB2, 0x0F0B] True = [0x0F56, 0x0F5B, 0x0FB2, 0x0F0B]"
  shows "transliterate normalize_tibetan normalize_iast upper
           \<lparr>replacements = [\<lparr>tibetan = [0x0F56, 0x0F5B, 0x0FB2],
                              transliteration = asc ''vajra'', phonetics = []\<rparr>]\<rparr>
           [0x0F56, 0x0F5B, 0x0FB2, 0x0F0B] (asc ''iast'') False [0x1E43]
         = Inr (asc ''vajra'')"
  using assms by (simp add: eval_simps)

theorem scenario_vajra_witness:
  "transliterate (\<lambda>t keep. t) (\<lambda>t. t) (\<lambda>c. [c])
           \<lparr>replacements = [\<lparr>tibetan = [0x0F56, 0x0F5B, 0x0FB2],
                              transliteration = asc ''vajra'', phonetics = []\<rparr>]\<rparr>
           [0x0F56, 0x0F5B, 0x0FB2, 0x0F0B] (asc ''iast'') False [0x1E43]
         = Inr (asc ''vajra'')"
  using scenario_vajra [of "\<lambda>t keep. t" "\<lambda>t. t" "\<lambda>c. [c]"] by simp

text \<open>
  C1, as stated, fails: with the rule for U+0F66 U+0F62 U+0FA6 whose phonetic
  replacement is \<open>sarva\<close> (here through the phonetic normalization of the
  transliteration), the input "pattern, tshek, U+0F53 U+0F71 U+0F7E" in mode
  \<open>phonetics\<close> does not yield \<open>sarva nam\<close>.
\<close>

theorem scenario_sarva_nam_counterexample:
  "transliterate (\<lambda>t keep. t) (\<lambda>t. t) (\<lambda>c. [c])
           \<lparr>replacements = [\<lparr>tibetan = [0x0F66, 0x0F62, 0x0FA6],
                              transliteration = asc ''sarva'', phonetics = []\<rparr>]\<rparr>
           [0x0F66, 0x0F62, 0x0FA6, 0x0F0B, 0x0F53, 0x0F71, 0x0F7E] (asc ''phonetics'') False [0x1E43]
         \<noteq> Inr (asc ''sarva nam'')"
  by (simp add: eval_simps)

text \<open>
  C1, amended. For the engine whose rule list is exactly one rule with that pattern and
  a phonetic replacement that resolves to \<open>sarva\<close>, the call returns \<open>sarvanam\<close>: the
  suffix sub-step leaves "tshek, placeholder, nam" behind the word, the boundary
  sub-step turns "pattern, tshek" into "sarva, space", and the placeholder is then
  removed together with the space before it.
\<close>

theorem scenario_sarvanam:
  assumes "normalize_tibetan [0x0F66, 0x0F62, 0x0FA6, 0x0F0B, 0x0F53, 0x0F71, 0x0F7E] True
             = [0x0F66, 0x0F62, 0x0FA6, 0x0F0B, 0x0F53, 0x0F71, 0x0F7E]"
      and "tibetan word = [0x0F66, 0x0F62, 0x0FA6]"
      and "replacement_of normalize_iast (asc ''phonetics'') word = asc ''sarva''"
  shows "transliterate normalize_tibetan normalize_iast upper \<lparr>replacements = [word]\<rparr>
           [0x0F66, 0x0F62, 0x0FA6, 0x0F0B, 0x0F53, 0x0F71, 0x0F7E] (asc ''phonetics'') False [0x1E43]
         = Inr (asc ''sarvanam'')"
proof -
  have r: "replacement_of normalize_iast
             [112, 104, 111, 110, 101, 116, 105, 99, 115] word = [115, 97, 114, 118, 97]"
    using assms(3) by (simp add: asc_def)
  show ?thesis
    using assms(1,2) r
    by (simp add: asc_def starts_with_def mk_seq_def mk_alt_def is_digit_def is_ascii_letter_def
        template_escape_def rmatch.simps(8) sub_loop.simps re_sub_def re_sub_call_def compile_re_def parse_set_def
        parse_brace_def MAXREPEAT_def decimal_def strip_def is_space_def boundary_markers_def
        vowel_markers_def suffix_regex_def suffix_repl_def boundary_regex_def visarga_regex_def
        visarga_repl_def vowel_regex_def nam_suffix_def inherent_a_def general_replacement_def
        apply_rule_def
        strip_placeholder_def vowel_cleanup_def capitalization_def finish_def transliterate_def)
qed

theorem scenario_sarvanam_witness:
  "transliterate (\<lambda>t keep. t) (\<lambda>t. t) (\<lambda>c. [c])
           \<lparr>replacements = [\<lparr>tibetan = [0x0F66, 0x0F62, 0x0FA6],
                              transliteration = asc ''sarva'', phonetics = []\<rparr>]\<rparr>
           [0x0F66, 0x0F62, 0x0FA6, 0x0F0B, 0x0F53, 0x0F71, 0x0F7E] (asc ''phonetics'') False [0x1E43]
         = Inr (asc ''sarvanam'')"
  using scenario_sarvanam [of "\<lambda>t keep. t"
      "\<lparr>tibetan = [0x0F66, 0x0F62, 0x0FA6], transliteration = asc ''sarva'', phonetics = []\<rparr>"
      "\<lambda>t. t" "\<lambda>c. [c]"]
  by (simp add: replacement_of_def)

section \<open>Frame and determinism\<close>

text \<open>
  C9. A call of the method leaves the engine object as it was: the rule list, every
  field of every rule and their order.
\<close>

theorem transliterate_call_frame:
  "snd (transliterate_call normalize_tibetan normalize_iast upper text mode capitalize
          anusvara_style self) = self"
  by (simp add: transliterate_call_def)

theorem transliterate_call_frame_witness:
  "snd (transliterate_call (\<lambda>t keep. t) (\<lambda>t. t) (\<lambda>c. [c])
          [0x0F56, 0x0F5B, 0x0FB2, 0x0F0B] (asc ''iast'') False [0x1E43]
          \<lparr>replacements = [\<lparr>tibetan = [0x0F56, 0x0F5B, 0x0FB2],
                             transliteration = asc ''vajra'', phonetics = []\<rparr>]\<rparr>)
     = \<lparr>replacements = [\<lparr>tibetan = [0x0F56, 0x0F5B, 0x0FB2],
                          transliteration = asc ''vajra'', phonetics = []\<rparr>]\<rparr>
   \<and> fst (transliterate_call (\<lambda>t keep. t) (\<lambda>t. t) (\<lambda>c. [c])
          [0x0F56, 0x0F5B, 0x0FB2, 0x0F0B] (asc ''iast'') False [0x1E43]
          \<lparr>replacements = [\<lparr>tibetan = [0x0F56, 0x0F5B, 0x0FB2],
                             transliteration = asc ''vajra'', phonetics = []\<rparr>]\<rparr>)
     = Inr (asc ''vajra'')"
  using transliterate_call_frame [of "\<lambda>t keep. t" "\<lambda>t. t" "\<lambda>c. [c]"
      "[0x0F56, 0x0F5B, 0x0FB2, 0x0F0B]" "asc ''iast''" False "[0x1E43]"
      "\<lparr>replacements = [\<lparr>tibetan = [0x0F56, 0x0F5B, 0x0FB2],
                          transliteration = asc ''vajra'', phonetics = []\<rparr>]\<rparr>"]
  by (simp add: transliterate_call_def eval_simps)

text \<open>
  C6. Calling the method twice with the same arguments, the second call on the engine
  the first one left behind, gives the same result twice; and two engines with the same
  rule list give the same result.
\<close>

theorem transliterate_deterministic:
  "fst (transliterate_call normalize_tibetan normalize_iast upper text mode capitalize anusvara_style
          (snd (transliterate_call normalize_tibetan normalize_iast upper text mode capitalize
                  anusvara_style self)))
     = fst (transliterate_call normalize_tibetan normalize_iast upper text mode capitalize
              anusvara_style self)
   \<and> (replacements other = replacements self \<longrightarrow>
        fst (transliterate_call normalize_tibetan normalize_iast upper text mode capitalize
               anusvara_style other)
          = fst (transliterate_call normalize_tibetan normalize_iast upper text mode capitalize
                   anusvara_style self))"
  by (simp add: transliterate_call_def transliterate_def)

theorem transliterate_deterministic_witness:
  "fst (transliterate_call (\<lambda>t keep. t) (\<lambda>t. t) (\<lambda>c. [c])
          [0x0F56, 0x0F5B, 0x0FB2, 0x0F0B] (asc ''iast'') False [0x1E43]
          (snd (transliterate_call (\<lambda>t keep. t) (\<lambda>t. t) (\<lambda>c. [c])
                  [0x0F56, 0x0F5B, 0x0FB2, 0x0F0B] (asc ''iast'') False [0x1E43]
                  \<lparr>replacements = [\<lparr>tibetan = [0x0F56, 0x0F5B, 0x0FB2],
                                     transliteration = asc ''vajra'', phonetics = []\<rparr>]\<rparr>)))
     = Inr (asc ''vajra'')"
  using transliterate_deterministic [of "\<lambda>t keep. t" "\<lambda>t. t" "\<lambda>c. [c]"
      "[0x0F56, 0x0F5B, 0x0FB2, 0x0F0B]" "asc ''iast''" False "[0x1E43]"
      "\<lparr>replacements = [\<lparr>tibetan = [0x0F56, 0x0F5B, 0x0FB2],
                          transliteration = asc ''vajra'', phonetics = []\<rparr>]\<rparr>"
      "\<lparr>replacements = [\<lparr>tibetan = [0x0F56, 0x0F5B, 0x0FB2],
                          transliteration = asc ''vajra'', phonetics = []\<rparr>]\<rparr>"]
  by (simp add: transliterate_call_def eval_simps)

section \<open>Characters of a substitution's result\<close>

text \<open>
  Whatever the regular expression, every character of the result of a substitution
  comes from the subject or from the replacement: the groups hold pieces of the subject.
\<close>

lemma str_replace_single: "str_replace [c] [d] s = map (\<lambda>x. if x = c then d else x) s"
  by (induction s) auto

lemma strip_map:
  assumes "\<And>x. is_space (f x) = is_space x"
  shows "strip (map f s) = map f (strip s)"
proof -
  have c: "is_space \<circ> f = is_space" using assms by auto
  show ?thesis by (simp add: strip_def dropWhile_map rev_map c)
qed

lemma set_strip: "set (strip s) \<subseteq> set s"
  by (auto simp: strip_def dest!: set_dropWhileD)

lemma caps_in_empty: "caps_in A Map.empty"
  by (simp add: caps_in_def)

lemma caps_in_upd: "caps_in A g \<Longrightarrow> set x \<subseteq> A \<Longrightarrow> caps_in A (g(n \<mapsto> x))"
  by (simp add: caps_in_def)

lemma rmatch_set: "(s', g') \<in> set (rmatch r s g) \<Longrightarrow> set s' \<subseteq> set s"
  using rmatch_suffix set_mono_suffix by blast

lemma rmatch_caps:
  "(s', g') \<in> set (rmatch r s g) \<Longrightarrow> set s \<subseteq> A \<Longrightarrow> caps_in A g \<Longrightarrow> caps_in A g'"
proof (induction r s g arbitrary: s' g' rule: rmatch.induct)
  case (5 a b s g)
  then obtain s1 g1 where 1: "(s1, g1) \<in> set (rmatch a s g)" and 2: "(s', g') \<in> set (rmatch b s1 g1)"
    by auto
  have "caps_in A g1" using 5(1) [OF 1 5(4) 5(5)] .
  moreover have "set s1 \<subseteq> A" using rmatch_set [OF 1] 5(4) by blast
  ultimately show ?case using 5(2) [OF 1 refl 2] by blast
next
  case (7 n r s g)
  then obtain g1 where 1: "(s', g1) \<in> set (rmatch r s g)" and g': "g' = g1(n \<mapsto> take (length s - length s') s)"
    by auto
  have "caps_in A g1" using 7(1) [OF 1 7(3) 7(4)] .
  moreover have "set (take (length s - length s') s) \<subseteq> A"
    using 7(3) set_take_subset by fastforce
  ultimately show ?case unfolding g' by (rule caps_in_upd)
next
  case (8 lo hi r s g)
  from 8(3) consider
    (iter) s1 g1 where "hi \<noteq> Some 0" "(s1, g1) \<in> set (rmatch r s g)" "length s1 < length s"
      "(s', g') \<in> set (rmatch (Rep (lo - 1) (map_option (\<lambda>h. h - 1) hi) r) s1 g1)"
    | (stop) "g' = g"
    by (subst (asm) rmatch.simps(8)) (auto split: if_splits)
  then show ?case
  proof cases
    case iter
    have "caps_in A g1" using 8(1) [OF iter(1) iter(2) 8(4) 8(5)] .
    moreover have "set s1 \<subseteq> A" using rmatch_set [OF iter(2)] 8(4) by blast
    ultimately show ?thesis using 8(2) [OF iter(1) iter(2) refl iter(3) iter(4)] by blast
  next
    case stop
    then show ?thesis using 8(5) by simp
  qed
qed (auto split: list.splits if_splits)

lemma sub_loop_None:
  "find (\<lambda>(s', g'). \<not> must_advance \<or> s' \<noteq> s) (rmatch r s Map.empty) = None \<Longrightarrow>
   sub_loop r f must_advance s = (case s of [] \<Rightarrow> [] | c # cs \<Rightarrow> c # sub_loop r f False cs)"
  by (subst sub_loop.simps) simp

lemma sub_loop_Some:
  "find (\<lambda>(s', g'). \<not> must_advance \<or> s' \<noteq> s) (rmatch r s Map.empty) = Some (s', g') \<Longrightarrow>
   sub_loop r f must_advance s = f (take (length s - length s') s) g' @ sub_loop r f (s' = s) s'"
  by (subst sub_loop.simps) simp

lemma sub_loop_chars:
  "(\<And>m g. set m \<subseteq> A \<Longrightarrow> caps_in A g \<Longrightarrow> set (f m g) \<subseteq> A) \<Longrightarrow> set s \<subseteq> A \<Longrightarrow>
   set (sub_loop r f must_advance s) \<subseteq> A"
proof (induction r f must_advance s rule: sub_loop.induct)
  case (1 r f must_advance s)
  note f = 1(3) and sA = 1(4)
  show ?case
  proof (cases "find (\<lambda>(s', g'). \<not> must_advance \<or> s' \<noteq> s) (rmatch r s Map.empty)")
    case None
    show ?thesis
    proof (cases s)
      case Nil
      with None show ?thesis by (simp add: sub_loop_None)
    next
      case (Cons c cs)
      have "set (sub_loop r f False cs) \<subseteq> A" using 1(1) [OF None Cons f] sA Cons by simp
      with Cons sA show ?thesis unfolding sub_loop_None [OF None] by simp
    qed
  next
    case (Some p)
    obtain s' g' where p: "p = (s', g')" by (cases p)
    have mem: "(s', g') \<in> set (rmatch r s Map.empty)"
      using Some p by (auto simp: find_Some_iff in_set_conv_nth)
    have s': "set s' \<subseteq> A" using rmatch_set [OF mem] sA by blast
    have c: "caps_in A g'" using rmatch_caps [OF mem sA caps_in_empty] .
    have m: "set (take (length s - length s') s) \<subseteq> A"
      using sA set_take_subset by fastforce
    have "set (f (take (length s - length s') s) g') \<subseteq> A" by (rule f [OF m c])
    moreover have "set (sub_loop r f (s' = s) s') \<subseteq> A" using 1(2) [OF Some p [symmetric] f s'] .
    ultimately show ?thesis unfolding sub_loop_Some [OF Some [unfolded p]] by simp
  qed
qed

lemma expand_chars: "caps_in A g \<Longrightarrow> tchars t \<subseteq> A \<Longrightarrow> set (expand t g) \<subseteq> A"
proof (induction t g rule: expand.induct)
  case (3 n t g)
  have "set x \<subseteq> A" if "Some x = g n" for x using 3(2) that [symmetric] by (auto simp: caps_in_def)
  then show ?case using 3 by (auto split: option.splits)
qed auto

lemma template_escape_chars:
  "template_escape n d rest = Inr items \<Longrightarrow> tchars items \<subseteq> {92, d, 7, 8, 9, 10, 11, 12, 13}"
  by (auto simp: template_escape_def split: if_splits)

lemma tchars_append: "tchars (a @ b) = tchars a \<union> tchars b"
  by (induction a rule: tchars.induct) auto

lemma parse_template_chars:
  "parse_template n tmpl = Inr t \<Longrightarrow> tchars t \<subseteq> set tmpl \<union> {7, 8, 9, 10, 11, 12, 13}"
proof (induction n tmpl arbitrary: t rule: parse_template.induct)
  case (1 groups)
  then show ?case by auto
next
  case (2 groups c)
  then show ?case by (auto split: if_splits)
next
  case (3 groups c d rest)
  note prem = "3.prems"
  show ?case
  proof (cases "c = 92")
    case False
    with prem obtain t1 where t1: "parse_template groups (d # rest) = Inr t1" "t = TChr c # t1"
      by (cases "parse_template groups (d # rest)") auto
    from "3.IH"(1) [OF False t1(1)] t1(2) show ?thesis by auto
  next
    case True
    with prem obtain items where it: "template_escape groups d rest = Inr items"
      by (cases "template_escape groups d rest") auto
    with prem True obtain t1 where t1: "parse_template groups rest = Inr t1" "t = items @ t1"
      by (cases "parse_template groups rest") auto
    from "3.IH"(2) [OF _ it t1(1)] True have "tchars t1 \<subseteq> set rest \<union> {7, 8, 9, 10, 11, 12, 13}"
      by simp
    with template_escape_chars [OF it] t1(2) True show ?thesis
      by (auto simp: tchars_append)
  qed
qed

lemma re_sub_chars:
  assumes "re_sub p tmpl s = Inr out" "set s \<subseteq> A" "set tmpl \<subseteq> A" "{7, 8, 9, 10, 11, 12, 13} \<subseteq> A"
  shows "set out \<subseteq> A"
proof -
  from assms(1) obtain r n t where c: "compile_re p = Inr (r, n)" and t: "parse_template n tmpl = Inr t"
    and out: "out = sub_loop r (\<lambda>m g. expand t g) False s"
    by (auto simp: re_sub_def split: sum.splits)
  have "tchars t \<subseteq> A" using parse_template_chars [OF t] assms(3,4) by blast
  then have "\<And>m g. set m \<subseteq> A \<Longrightarrow> caps_in A g \<Longrightarrow> set (expand t g) \<subseteq> A"
    by (simp add: expand_chars)
  then show ?thesis unfolding out using assms(2) by (rule sub_loop_chars)
qed

lemma re_sub_call_chars:
  assumes "re_sub_call p f s = Inr out" "set s \<subseteq> A"
    and "\<And>m g. set m \<subseteq> A \<Longrightarrow> caps_in A g \<Longrightarrow> set (f m g) \<subseteq> A"
  shows "set out \<subseteq> A"
proof -
  from assms(1) obtain r n where out: "out = sub_loop r f False s"
    by (auto simp: re_sub_call_def split: sum.splits)
  show ?thesis unfolding out using assms(3,2) by (rule sub_loop_chars)
qed


section \<open>No tshek in the output\<close>

lemma finish_no_tshek:
  assumes up: "\<forall>c. c \<noteq> tshek \<longrightarrow> tshek \<notin> set (upper c)"
    and fin: "finish upper capitalize anusvara_style replaced = Inr out"
  shows "tshek \<notin> set out"
proof -
  let ?A = "- {tshek}"
  have ctl: "{7, 8, 9, 10, 11, 12, 13} \<subseteq> ?A" by simp
  from fin obtain r1 r2 r3 where
    a1: "strip_placeholder (str_replace [tshek] [32] replaced) = Inr r1" and
    a2: "vowel_cleanup r1 = Inr r2" and
    a3: "capitalization upper capitalize r2 = Inr r3" and
    out: "out = strip (if anusvara_style = [0x1E41] then str_replace [0x1E43] [0x1E41] r3 else r3)"
    by (auto simp: finish_def split: sum.splits)
  have a0: "set (str_replace [tshek] [32] replaced) \<subseteq> ?A"
    by (auto simp: str_replace_single)
  have s1: "set r1 \<subseteq> ?A"
    using re_sub_chars [OF a1 [unfolded strip_placeholder_def] a0 _ ctl] by simp
  from a2 obtain m where
    a2a: "re_sub ([97, 40, 91] @ [0x0101, 0x012B, 0x016B, 0x1E5B, 0x1E5D, 0x1E37, 0x1E39] @ [93, 41])
           [92, 49] r1 = Inr m" and
    a2b: "re_sub ([97, 40, 91] @ [0x1E43, 0x1E41] @ [93, 41]) [92, 49] m = Inr r2"
    by (auto simp: vowel_cleanup_def split: sum.splits)
  have sm: "set m \<subseteq> ?A" using re_sub_chars [OF a2a s1 _ ctl] by simp
  have s2: "set r2 \<subseteq> ?A" using re_sub_chars [OF a2b sm _ ctl] by simp
  have s3: "set r3 \<subseteq> ?A"
  proof (cases capitalize)
    case False
    with a3 have "re_sub (asc '' {2,}'') (asc ''    '') r2 = Inr r3" by (simp add: capitalization_def)
    from re_sub_chars [OF this s2 _ ctl] show ?thesis by (simp add: asc_def)
  next
    case True
    with a3 have c: "re_sub_call (asc '' {2,}(.)'')
          (\<lambda>m g. asc ''    '' @ str_upper upper (case g 1 of None \<Rightarrow> [] | Some x \<Rightarrow> x))
          (case r2 of [] \<Rightarrow> [] | c # cs \<Rightarrow> upper c @ cs) = Inr r3"
      by (simp add: capitalization_def)
    have subj: "set (case r2 of [] \<Rightarrow> [] | c # cs \<Rightarrow> upper c @ cs) \<subseteq> ?A"
      using s2 up by (auto split: list.splits)
    have f: "set (asc ''    '' @ str_upper upper (case g 1 of None \<Rightarrow> [] | Some x \<Rightarrow> x)) \<subseteq> ?A"
      if "caps_in ?A g" for g
    proof (cases "g 1")
      case None
      then show ?thesis by (simp add: asc_def str_upper_def)
    next
      case (Some x)
      then have "set x \<subseteq> ?A" using that by (auto simp: caps_in_def)
      then have "tshek \<notin> set (upper c)" if "c \<in> set x" for c using up that by blast
      then show ?thesis using Some by (auto simp: asc_def str_upper_def)
    qed
    show ?thesis by (rule re_sub_call_chars [OF c subj]) (rule f)
  qed
  have "set (if anusvara_style = [0x1E41] then str_replace [0x1E43] [0x1E41] r3 else r3) \<subseteq> ?A"
    using s3 by (auto simp: str_replace_single)
  then show ?thesis unfolding out using set_strip by fastforce
qed

text \<open>
  C10. The string a call returns contains no tshek, whatever the rule list, the input,
  the mode and the flags, also when the input or a replacement contains tsheks and the
  suffix sub-step has put one back: every tshek is turned into a space after the rule
  loop, and the later steps only delete characters, copy pieces of the string, insert
  spaces or upper-case a character. The upper-case table is a parameter; what is used of
  it is that the upper case of a character other than tshek contains no tshek.
\<close>

theorem output_has_no_tshek:
  assumes "\<forall>c. c \<noteq> tshek \<longrightarrow> tshek \<notin> set (upper c)"
    and "transliterate normalize_tibetan normalize_iast upper self text mode capitalize anusvara_style
           = Inr out"
  shows "tshek \<notin> set out"
proof -
  from assms(2) obtain replaced where "finish upper capitalize anusvara_style replaced = Inr out"
    by (auto simp: transliterate_def split: sum.splits)
  with assms(1) show ?thesis by (rule finish_no_tshek)
qed

theorem output_has_no_tshek_witness:
  "transliterate (\<lambda>t keep. t) (\<lambda>t. t) (\<lambda>c. [c])
        \<lparr>replacements = [\<lparr>tibetan = [0x0F66, 0x0F62, 0x0FA6],
                           transliteration = [115, tshek, 97], phonetics = []\<rparr>]\<rparr>
        [0x0F66, 0x0F62, 0x0FA6, tshek, 0x0F53, 0x0F71, 0x0F7E, tshek, 0x0F66, 0x0F62, 0x0FA6]
        (asc ''iast'') True [0x1E43]
       = Inr [115, 32, 97, 110, 0x0101, 0x1E43, 32, 115, 32, 97]
   \<and> tshek \<notin> set [115, 32, 97, 110, 0x0101, 0x1E43, 32, 115, 32, 97]"
proof -
  have h: "\<forall>c. c \<noteq> tshek \<longrightarrow> tshek \<notin> set ((\<lambda>c. [c]) c)" by simp
  have e: "transliterate (\<lambda>t keep. t) (\<lambda>t. t) (\<lambda>c. [c])
        \<lparr>replacements = [\<lparr>tibetan = [0x0F66, 0x0F62, 0x0FA6],
                           transliteration = [115, tshek, 97], phonetics = []\<rparr>]\<rparr>
        [0x0F66, 0x0F62, 0x0FA6, tshek, 0x0F53, 0x0F71, 0x0F7E, tshek, 0x0F66, 0x0F62, 0x0FA6]
        (asc ''iast'') True [0x1E43]
       = Inr [115, 32, 97, 110, 0x0101, 0x1E43, 32, 115, 32, 97]"
    by (simp add: eval_simps)
  from output_has_no_tshek [OF h e] e show ?thesis by blast
qed

section \<open>The anusvara style\<close>

lemma anusvara_not_space: "is_space (if x = 0x1E43 then 0x1E41 else x) = is_space x"
  by (simp add: is_space_def)

text \<open>
  C5. For every input, mode and capitalize flag, the outcome with anusvara style U+1E41
  is the outcome with style U+1E43 in which every U+1E43 has become U+1E41 and every
  other character is as it was (a failure is the same failure).
\<close>

theorem anusvara_style_only_renames:
  "transliterate normalize_tibetan normalize_iast upper self text mode capitalize [0x1E41]
     = map_sum id (map (\<lambda>c. if c = 0x1E43 then 0x1E41 else c))
         (transliterate normalize_tibetan normalize_iast upper self text mode capitalize [0x1E43])"
  by (auto simp: transliterate_def finish_def str_replace_single strip_map anusvara_not_space
      split: sum.splits)

theorem anusvara_style_only_renames_witness:
  "transliterate (\<lambda>t keep. t) (\<lambda>t. t) (\<lambda>c. [c])
        \<lparr>replacements = [\<lparr>tibetan = [0x0F68, 0x0F7C, 0x0F7E],
                           transliteration = [111, 0x1E43], phonetics = asc ''om''\<rparr>]\<rparr>
        [0x0F68, 0x0F7C, 0x0F7E] (asc ''iast'') False [0x1E41]
     = Inr [111, 0x1E41]"
proof -
  have e: "transliterate (\<lambda>t keep. t) (\<lambda>t. t) (\<lambda>c. [c])
        \<lparr>replacements = [\<lparr>tibetan = [0x0F68, 0x0F7C, 0x0F7E],
                           transliteration = [111, 0x1E43], phonetics = asc ''om''\<rparr>]\<rparr>
        [0x0F68, 0x0F7C, 0x0F7E] (asc ''iast'') False [0x1E43]
     = Inr [111, 0x1E43]"
    by (simp add: eval_simps)
  show ?thesis
    unfolding anusvara_style_only_renames [of "\<lambda>t keep. t" "\<lambda>t. t" "\<lambda>c. [c]" _ _ _ False] e
    by simp
qed


section \<open>The vowel-collision cleanup\<close>

lemma not_two_cons_self: "s \<noteq> x # y # s"
proof
  assume "s = x # y # s"
  then have "length s = length (x # y # s)" by simp
  then show False by simp
qed

lemma rmatch_a_set:
  "rmatch (Seq (Lit 97) (Seq (Grp 1 (Seq (Cset False rs) Emp)) Emp)) s g =
     (case s of
        x # y # s' \<Rightarrow> if x = 97 \<and> in_ranges y rs then [(s', g(1 \<mapsto> [y]))] else []
      | _ \<Rightarrow> [])"
  by (cases s; cases "tl s") auto

lemma sub_loop_del_a:
  "sub_loop (Seq (Lit 97) (Seq (Grp 1 (Seq (Cset False rs) Emp)) Emp)) (\<lambda>m g. expand [TGrp 1] g)
     must_advance s = del_a (\<lambda>y. in_ranges y rs) s"
proof (induction "\<lambda>y. in_ranges y rs" s arbitrary: must_advance rule: del_a.induct)
  case (1 x y s)
  show ?case
  proof (cases "x = 97 \<and> in_ranges y rs")
    case True
    then show ?thesis
      using 1(1) [OF True, of False] not_two_cons_self [of s x y]
      by (subst sub_loop.simps) (simp add: rmatch_a_set)
  next
    case False
    then show ?thesis
      using 1(2) [OF False, of False]
      by (subst sub_loop.simps) (auto simp add: rmatch_a_set)
  qed
next
  case (3 P)
  show ?case by (subst sub_loop.simps) (simp add: rmatch_a_set)
next
  case (2 P v)
  show ?case
    by (subst sub_loop.simps, simp add: rmatch_a_set, subst sub_loop.simps, simp add: rmatch_a_set)
qed

lemma in_ranges_long_vowel:
  "(\<lambda>y. in_ranges y [(0x0101, 0x0101), (0x012B, 0x012B), (0x016B, 0x016B), (0x1E5B, 0x1E5B),
                       (0x1E5D, 0x1E5D), (0x1E37, 0x1E37), (0x1E39, 0x1E39)]) = long_vowel"
  by (rule ext) (auto simp: long_vowel_def)

lemma in_ranges_anusvara:
  "(\<lambda>y. in_ranges y [(0x1E43, 0x1E43), (0x1E41, 0x1E41)]) = anusvara"
  by (rule ext) (auto simp: anusvara_def)

lemma compile_long_vowel:
  "compile_re ([97, 40, 91] @ [0x0101, 0x012B, 0x016B, 0x1E5B, 0x1E5D, 0x1E37, 0x1E39] @ [93, 41])
     = Inr (Seq (Lit 97) (Seq (Grp 1 (Seq (Cset False
         [(0x0101, 0x0101), (0x012B, 0x012B), (0x016B, 0x016B), (0x1E5B, 0x1E5B),
          (0x1E5D, 0x1E5D), (0x1E37, 0x1E37), (0x1E39, 0x1E39)]) Emp)) Emp), 1)"
  by (simp add: compile_re_def parse_set_def starts_with_def mk_seq_def mk_alt_def)

lemma compile_anusvara:
  "compile_re ([97, 40, 91] @ [0x1E43, 0x1E41] @ [93, 41])
     = Inr (Seq (Lit 97) (Seq (Grp 1 (Seq (Cset False [(0x1E43, 0x1E43), (0x1E41, 0x1E41)]) Emp)) Emp), 1)"
  by (simp add: compile_re_def parse_set_def starts_with_def mk_seq_def mk_alt_def)

lemma template_group1: "parse_template 1 [92, 49] = Inr [TGrp 1]"
  by (simp add: template_escape_def is_digit_def)

lemma vowel_cleanup_eq: "vowel_cleanup s = Inr (del_a anusvara (del_a long_vowel s))"
  by (simp only: vowel_cleanup_def re_sub_def compile_long_vowel compile_anusvara template_group1
      sum.case prod.case sub_loop_del_a in_ranges_long_vowel in_ranges_anusvara)

lemma del_a_fixed: "\<not> a_before P s \<Longrightarrow> del_a P s = s"
  by (induction P s rule: del_a.induct) auto

lemma a_before_Cons: "x \<noteq> 97 \<Longrightarrow> a_before P (x # s) = a_before P s"
  by (cases s) auto

lemma aa_before_Cons: "aa_before P s \<Longrightarrow> aa_before P (x # s)"
  by (cases s; cases "tl s") auto


lemma del_a_Cons:
  "del_a P (x # s) =
     (case s of [] \<Rightarrow> [x] | y # s' \<Rightarrow> if x = 97 \<and> P y then y # del_a P s' else x # del_a P s)"
  by (cases s) auto

lemma a_before_del_a_same:
  "\<not> P 97 \<Longrightarrow> \<not> aa_before P s \<Longrightarrow> \<not> a_before P (del_a P s)"
proof (induction P s rule: del_a.induct)
  case (1 P x y s)
  show ?case
  proof (cases "x = 97 \<and> P y")
    case True
    then have y: "y \<noteq> 97" using 1(3) by auto
    have "\<not> aa_before P s" using 1(4) aa_before_Cons by blast
    then have "\<not> a_before P (del_a P s)" using 1(1) [OF True 1(3)] by simp
    then show ?thesis using True y by (simp add: a_before_Cons)
  next
    case False
    have "\<not> aa_before P (y # s)" using 1(4) aa_before_Cons by blast
    then have ih: "\<not> a_before P (del_a P (y # s))" using 1(2) [OF False 1(3)] by simp
    show ?thesis
    proof (cases s)
      case Nil
      with False show ?thesis by auto
    next
      case (Cons z s')
      show ?thesis
      proof (cases "y = 97 \<and> P z")
        case True
        then have "x \<noteq> 97" using 1(4) Cons by auto
        then show ?thesis using ih False by (simp add: a_before_Cons)
      next
        case nd: False
        then show ?thesis using ih False Cons by auto
      qed
    qed
  qed
qed auto

lemma a_before_del_a_other:
  "\<not> Q 97 \<Longrightarrow> (\<And>y. Q y \<Longrightarrow> \<not> P y) \<Longrightarrow> \<not> a_before P s \<Longrightarrow> \<not> a_before P (del_a Q s)"
proof (induction Q s rule: del_a.induct)
  case (1 Q x y s)
  show ?case
  proof (cases "x = 97 \<and> Q y")
    case True
    then have y: "y \<noteq> 97" using 1(3) by auto
    have "\<not> a_before P s" using 1(5) y by (simp add: a_before_Cons)
    then have "\<not> a_before P (del_a Q s)" using 1(1) [OF True 1(3) 1(4)] by simp
    then show ?thesis using True y by (simp add: a_before_Cons)
  next
    case False
    have ih: "\<not> a_before P (del_a Q (y # s))" using 1(2) [OF False 1(3) 1(4)] 1(5) by simp
    show ?thesis
    proof (cases s)
      case Nil
      with False 1(5) show ?thesis by auto
    next
      case (Cons z s')
      show ?thesis
      proof (cases "y = 97 \<and> Q z")
        case True
        then have "\<not> P z" using 1(4) by blast
        then show ?thesis using ih False True Cons by auto
      next
        case nd: False
        then show ?thesis using ih False Cons 1(5) by auto
      qed
    qed
  qed
qed auto

lemma aa_before_Cons_ne: "x \<noteq> 97 \<Longrightarrow> aa_before Q (x # s) = aa_before Q s"
  by (cases s; cases "tl s") auto

lemma aa_before_Cons2:
  "aa_before Q (x # y # u) =
     ((x = 97 \<and> y = 97 \<and> (case u of [] \<Rightarrow> False | c # t \<Rightarrow> Q c)) \<or> aa_before Q (y # u))"
  by (cases u) auto

lemma del_a_hd:
  "\<exists>c t. del_a P (z # s) = c # t \<and> (c = z \<or> (z = 97 \<and> P c))"
  by (cases s) auto

lemma aa_before_del_a_other:
  "\<not> P 97 \<Longrightarrow> (\<And>y. P y \<Longrightarrow> \<not> Q y) \<Longrightarrow> \<not> aa_before Q s \<Longrightarrow> \<not> aa_before Q (del_a P s)"
proof (induction P s rule: del_a.induct)
  case (1 P x y s)
  have tl1: "\<not> aa_before Q (y # s)" using 1(5) aa_before_Cons by blast
  show ?case
  proof (cases "x = 97 \<and> P y")
    case True
    then have y: "y \<noteq> 97" using 1(3) by auto
    have "\<not> aa_before Q s" using tl1 aa_before_Cons by blast
    then have "\<not> aa_before Q (del_a P s)" using 1(1) [OF True 1(3) 1(4)] by simp
    then show ?thesis using True y by (simp add: aa_before_Cons_ne)
  next
    case False
    have ih: "\<not> aa_before Q (del_a P (y # s))" using 1(2) [OF False 1(3) 1(4)] tl1 by simp
    show ?thesis
    proof (cases s)
      case Nil
      with False show ?thesis by auto
    next
      case (Cons z s')
      show ?thesis
      proof (cases "y = 97 \<and> P z")
        case True
        then have "z \<noteq> 97" using 1(3) by auto
        then show ?thesis using ih False True Cons
          by (cases "del_a P s'") auto
      next
        case nd: False
        obtain c t where ct: "del_a P (z # s') = c # t" and c: "c = z \<or> (z = 97 \<and> P c)"
          using del_a_hd by blast
        have nq: "\<not> (x = 97 \<and> y = 97 \<and> Q c)"
        proof (cases "c = z")
          case True
          then show ?thesis using 1(5) Cons by auto
        next
          case False
          then have "P c" using c by simp
          then show ?thesis using 1(4) by blast
        qed
        have "del_a P (y # s) = y # c # t" using nd Cons ct by auto
        moreover from this have "del_a P (x # y # s) = x # y # c # t" using False by auto
        ultimately show ?thesis using ih nq by (simp add: aa_before_Cons2 del: del_a.simps)
      qed
    qed
  qed
qed auto

lemma aa_before_mono:
  "(\<And>y. P y \<Longrightarrow> Q y) \<Longrightarrow> aa_before P s \<Longrightarrow> aa_before Q s"
  by (induction P s rule: aa_before.induct) auto

lemma long_vowel_not_a: "\<not> long_vowel 97"
  by (simp add: long_vowel_def)

lemma anusvara_not_a: "\<not> anusvara 97"
  by (simp add: anusvara_def)

lemma long_vowel_not_anusvara: "long_vowel y \<Longrightarrow> \<not> anusvara y"
  by (auto simp: long_vowel_def anusvara_def)

lemma cleanup_idem:
  assumes "\<not> aa_before (\<lambda>y. long_vowel y \<or> anusvara y) s"
  shows "del_a anusvara (del_a long_vowel (del_a anusvara (del_a long_vowel s)))
           = del_a anusvara (del_a long_vowel s)"
proof -
  let ?t = "del_a long_vowel s"
  let ?u = "del_a anusvara ?t"
  have v: "\<not> aa_before long_vowel s" and m: "\<not> aa_before anusvara s"
    using assms aa_before_mono [of long_vowel "\<lambda>y. long_vowel y \<or> anusvara y" s]
      aa_before_mono [of anusvara "\<lambda>y. long_vowel y \<or> anusvara y" s] by auto
  have t1: "\<not> a_before long_vowel ?t"
    using a_before_del_a_same [OF long_vowel_not_a v] .
  have t2: "\<not> aa_before anusvara ?t"
    using aa_before_del_a_other [of long_vowel anusvara s] long_vowel_not_a long_vowel_not_anusvara m
    by blast
  have u1: "\<not> a_before anusvara ?u"
    using a_before_del_a_same [OF anusvara_not_a t2] .
  have u2: "\<not> a_before long_vowel ?u"
    using a_before_del_a_other [of anusvara long_vowel ?t] anusvara_not_a long_vowel_not_anusvara t1
    by blast
  show ?thesis by (simp add: del_a_fixed [OF u2] del_a_fixed [OF u1])
qed


lemma del_a_Cons_ne: "x \<noteq> 97 \<Longrightarrow> del_a P (x # s) = x # del_a P s"
  by (cases s) auto

lemma a_before_ConsI: "a_before P s \<Longrightarrow> a_before P (x # s)"
  by (cases s) auto

lemma aa_before_Cons3:
  "aa_before Q (x # y # s) \<longleftrightarrow>
     (x = 97 \<and> y = 97 \<and> (\<exists>z s'. s = z # s' \<and> Q z)) \<or> aa_before Q (y # s)"
  by (cases s) auto

lemma del_a_else: "\<not> (x = 97 \<and> P y) \<Longrightarrow> del_a P (x # y # s) = x # del_a P (y # s)"
  by auto

lemma del_a_then: "x = 97 \<and> P y \<Longrightarrow> del_a P (x # y # s) = y # del_a P s"
  by auto

lemma aa_before_ConsI: "aa_before P s \<Longrightarrow> aa_before P (x # s)"
  by (cases s; cases "tl s") auto

lemma a_before_after_pass:
  "\<not> P 97 \<Longrightarrow> aa_before P s \<Longrightarrow> a_before P (del_a P s)"
proof (induction P s rule: del_a.induct)
  case (1 P x y s)
  show ?case
  proof (cases "x = 97 \<and> P y")
    case True
    then have y: "y \<noteq> 97" using 1(3) by auto
    with 1(4) have "aa_before P s" by (simp add: aa_before_Cons3 aa_before_Cons_ne)
    then have "a_before P (del_a P s)" using 1(1) [OF True 1(3)] by simp
    then show ?thesis unfolding del_a_then [of x P y s, OF True] by (rule a_before_ConsI)
  next
    case False
    from 1(4) consider
      (head) z s' where "x = 97" "y = 97" "s = z # s'" "P z"
      | (tail) "aa_before P (y # s)"
      by (auto simp: aa_before_Cons3)
    then show ?thesis
    proof cases
      case head
      then show ?thesis using False by simp
    next
      case tail
      then have "a_before P (del_a P (y # s))" using 1(2) [OF False 1(3)] by simp
      then show ?thesis unfolding del_a_else [of x P y s, OF False] by (rule a_before_ConsI)
    qed
  qed
qed auto

lemma a_before_kept:
  "\<not> P 97 \<Longrightarrow> \<not> Q 97 \<Longrightarrow> (\<And>y. Q y \<Longrightarrow> \<not> P y) \<Longrightarrow> a_before P s \<Longrightarrow>
   a_before P (del_a Q s)"
proof (induction Q s rule: del_a.induct)
  case (1 Q x y s)
  show ?case
  proof (cases "x = 97 \<and> Q y")
    case True
    then have "\<not> P y" using 1(5) by blast
    with 1(6) have t: "a_before P (y # s)" by simp
    have "y \<noteq> 97" using True 1(4) by auto
    with t have "a_before P s" by (simp add: a_before_Cons)
    then have "a_before P (del_a Q s)" using 1(1) [OF True 1(3) 1(4) 1(5)] by simp
    then show ?thesis unfolding del_a_then [of x Q y s, OF True] by (rule a_before_ConsI)
  next
    case False
    from 1(6) consider (head) "x = 97" "P y" | (tail) "a_before P (y # s)" by auto
    then show ?thesis
    proof cases
      case head
      then have "y \<noteq> 97" using 1(3) by auto
      then have "del_a Q (x # y # s) = x # y # del_a Q s"
        unfolding del_a_else [of x Q y s, OF False] by (simp add: del_a_Cons_ne)
      then show ?thesis using head by simp
    next
      case tail
      then have "a_before P (del_a Q (y # s))" using 1(2) [OF False 1(3) 1(4) 1(5)] by simp
      then show ?thesis unfolding del_a_else [of x Q y s, OF False] by (rule a_before_ConsI)
    qed
  qed
qed auto

lemma aa_before_kept:
  "\<not> P 97 \<Longrightarrow> \<not> Q 97 \<Longrightarrow> (\<And>y. P y \<Longrightarrow> \<not> Q y) \<Longrightarrow> aa_before Q s \<Longrightarrow>
   aa_before Q (del_a P s)"
proof (induction P s rule: del_a.induct)
  case (1 P x y s)
  show ?case
  proof (cases "x = 97 \<and> P y")
    case True
    then have y: "y \<noteq> 97" using 1(3) by auto
    with 1(6) have "aa_before Q s" by (simp add: aa_before_Cons3 aa_before_Cons_ne)
    then have "aa_before Q (del_a P s)" using 1(1) [OF True 1(3) 1(4) 1(5)] by simp
    then show ?thesis unfolding del_a_then [of x P y s, OF True] by (rule aa_before_ConsI)
  next
    case False
    from 1(6) consider
      (head) z s' where "x = 97" "y = 97" "s = z # s'" "Q z"
      | (tail) "aa_before Q (y # s)"
      by (auto simp: aa_before_Cons3)
    then show ?thesis
    proof cases
      case head
      then have z: "z \<noteq> 97" "\<not> P z" using 1(4) 1(5) by auto
      have "del_a P (x # y # z # s') = x # y # z # del_a P s'"
        using head z 1(3) by (simp add: del_a_Cons_ne)
      then show ?thesis using head by simp
    next
      case tail
      then have "aa_before Q (del_a P (y # s))" using 1(2) [OF False 1(3) 1(4) 1(5)] by simp
      then show ?thesis unfolding del_a_else [of x P y s, OF False] by (rule aa_before_ConsI)
    qed
  qed
qed auto

lemma length_del_a: "length (del_a P s) \<le> length s"
  by (induction P s rule: del_a.induct) auto

lemma length_del_a_less: "a_before P s \<Longrightarrow> length (del_a P s) < length s"
proof (induction P s rule: del_a.induct)
  case (1 P x y s)
  show ?case
  proof (cases "x = 97 \<and> P y")
    case True
    have "length (del_a P s) \<le> length s" by (rule length_del_a)
    then show ?thesis using True by simp
  next
    case False
    with 1(3) have "a_before P (y # s)" by auto
    then have "length (del_a P (y # s)) < length (y # s)" using 1(2) [OF False] by simp
    then show ?thesis unfolding del_a_else [of x P y s, OF False] by simp
  qed
qed auto

lemma aa_before_disj:
  "aa_before (\<lambda>y. P y \<or> Q y) s \<longleftrightarrow> aa_before P s \<or> aa_before Q s"
  by (induction P s rule: aa_before.induct) auto

lemma cleanup_changes:
  assumes "a_before long_vowel u \<or> a_before anusvara u"
  shows "del_a anusvara (del_a long_vowel u) \<noteq> u"
proof -
  have "length (del_a anusvara (del_a long_vowel u)) < length u"
  proof (cases "a_before long_vowel u")
    case True
    from length_del_a_less [OF True] length_del_a [of anusvara "del_a long_vowel u"]
    show ?thesis by simp
  next
    case False
    with assms have "a_before anusvara u" by simp
    from length_del_a_less [OF this] del_a_fixed [OF False] show ?thesis by simp
  qed
  then show ?thesis by auto
qed

lemma cleanup_not_idem:
  assumes "aa_before (\<lambda>y. long_vowel y \<or> anusvara y) s"
  shows "del_a anusvara (del_a long_vowel (del_a anusvara (del_a long_vowel s)))
           \<noteq> del_a anusvara (del_a long_vowel s)"
proof -
  let ?t = "del_a long_vowel s"
  let ?u = "del_a anusvara ?t"
  have "a_before long_vowel ?u \<or> a_before anusvara ?u"
  proof (cases "aa_before long_vowel s")
    case True
    have "a_before long_vowel ?t"
      using a_before_after_pass [of long_vowel s] long_vowel_not_a True by blast
    then have "a_before long_vowel ?u"
      using a_before_kept [of long_vowel anusvara ?t] long_vowel_not_a anusvara_not_a
        long_vowel_not_anusvara by blast
    then show ?thesis by simp
  next
    case False
    with assms have "aa_before anusvara s" by (simp add: aa_before_disj)
    then have "aa_before anusvara ?t"
      using aa_before_kept [of long_vowel anusvara s] long_vowel_not_a anusvara_not_a
        long_vowel_not_anusvara by blast
    then have "a_before anusvara ?u"
      using a_before_after_pass [of anusvara ?t] anusvara_not_a by blast
    then show ?thesis by simp
  qed
  then show ?thesis by (rule cleanup_changes)
qed

text \<open>
  C4, as stated, fails: on \<open>a a U+0101\<close> the cleanup drops one \<open>a\<close>, and applied to
  its own output it drops the other.
\<close>

theorem vowel_cleanup_not_idempotent:
  "vowel_cleanup [97, 97, 0x0101] = Inr [97, 0x0101]
   \<and> vowel_cleanup [97, 0x0101] = Inr [0x0101]
   \<and> [0x0101] \<noteq> [97, 0x0101 :: nat]"
  by (simp add: vowel_cleanup_eq long_vowel_def anusvara_def)

text \<open>
  C4, amended. The cleanup is idempotent on a string exactly when the string has no two
  consecutive \<open>a\<close> immediately before one of the nine letters (the seven long or vocalic
  vowels and the two anusvara glyphs): on such a string it returns a string on which it
  changes nothing, on any other string a second application deletes another \<open>a\<close>.
\<close>

theorem vowel_cleanup_idempotent:
  "(\<exists>t. vowel_cleanup s = Inr t \<and> vowel_cleanup t = Inr t)
     \<longleftrightarrow> \<not> aa_before (\<lambda>y. long_vowel y \<or> anusvara y) s"
  using cleanup_idem [of s] cleanup_not_idem [of s] by (auto simp: vowel_cleanup_eq)

theorem vowel_cleanup_idempotent_witness:
  "\<exists>t. vowel_cleanup [118, 97, 0x0101, 97, 0x1E43] = Inr t \<and> vowel_cleanup t = Inr t"
  using vowel_cleanup_idempotent [of "[118, 97, 0x0101, 97, 0x1E43]"]
  by (simp add: long_vowel_def anusvara_def)

section \<open>Malformed patterns\<close>

lemma re_sub_raises:
  "re_sub p t s = (case sub_raises p t of Some e \<Rightarrow> Inl e | None \<Rightarrow> re_sub p t s)"
  by (auto simp: re_sub_def sub_raises_def split: sum.splits)

lemma re_sub_recoverable:
  "recoverable p t \<Longrightarrow> re_sub p t s = Inl ReError \<or> (\<exists>out. re_sub p t s = Inr out)"
  by (auto simp: recoverable_def re_sub_def sub_raises_def split: sum.splits)

lemma nam_suffix_total:
  "recoverable (suffix_regex p) (suffix_repl mode) \<Longrightarrow> \<exists>out. nam_suffix mode p s = Inr out"
  using re_sub_recoverable [of "suffix_regex p" "suffix_repl mode" s]
  by (auto simp: nam_suffix_def)

lemma inherent_a_total:
  assumes "recoverable (boundary_regex p) (r @ [32])"
    and "recoverable (visarga_regex p) (visarga_repl mode (butlast r))"
    and "recoverable (vowel_regex p) (butlast r @ [92, 49])"
  shows "\<exists>out. inherent_a mode p r s = Inr out"
proof -
  from re_sub_recoverable [OF assms(1), of s] consider
    "re_sub (boundary_regex p) (r @ [32]) s = Inl ReError"
    | s1 where "re_sub (boundary_regex p) (r @ [32]) s = Inr s1" by blast
  then show ?thesis
  proof cases
    case 1
    then show ?thesis by (simp add: inherent_a_def)
  next
    case (2 s1)
    from re_sub_recoverable [OF assms(2), of s1] consider
      "re_sub (visarga_regex p) (visarga_repl mode (butlast r)) s1 = Inl ReError"
      | s2 where "re_sub (visarga_regex p) (visarga_repl mode (butlast r)) s1 = Inr s2" by blast
    then show ?thesis
    proof cases
      case 1
      with 2 show ?thesis by (simp add: inherent_a_def)
    next
      case s2: (2 s2)
      from re_sub_recoverable [OF assms(3), of s2] 2 s2 show ?thesis
        by (auto simp: inherent_a_def)
    qed
  qed
qed

lemma general_replacement_total:
  "recoverable p r \<Longrightarrow> \<exists>out. general_replacement p r s = Inr out"
  using re_sub_recoverable [of p r s] by (auto simp: general_replacement_def)

lemma apply_rule_total:
  assumes "rule_recoverable nz mode w"
  shows "\<exists>out. apply_rule nz mode w s = Inr out"
proof (cases "tibetan w = []")
  case True
  then show ?thesis by (simp add: apply_rule_def)
next
  case False
  let ?r = "replacement_of nz mode w"
  let ?p = "tibetan w"
  from assms False have
    a: "recoverable (suffix_regex ?p) (suffix_repl mode)" and
    g: "recoverable ?p ?r" and
    i: "?r \<noteq> [] \<and> last ?r = 97 \<Longrightarrow>
          recoverable (boundary_regex ?p) (?r @ [32]) \<and>
          recoverable (visarga_regex ?p) (visarga_repl mode (butlast ?r)) \<and>
          recoverable (vowel_regex ?p) (butlast ?r @ [92, 49])"
    by (auto simp: rule_recoverable_def Let_def)
  from nam_suffix_total [OF a] obtain s1 where s1: "nam_suffix mode ?p s = Inr s1" by blast
  have "\<exists>s2. (if ?r \<noteq> [] \<and> last ?r = 97 then inherent_a mode ?p ?r s1 else Inr s1) = Inr s2"
    using i inherent_a_total [of ?p ?r mode s1] by auto
  then obtain s2 where s2: "(if ?r \<noteq> [] \<and> last ?r = 97 then inherent_a mode ?p ?r s1 else Inr s1) = Inr s2"
    by blast
  from general_replacement_total [OF g] obtain s3 where "general_replacement ?p ?r s2 = Inr s3" by blast
  with False s1 s2 show ?thesis by (simp add: apply_rule_def Let_def)
qed

lemma apply_rules_total:
  "\<forall>w \<in> set ws. rule_recoverable nz mode w \<Longrightarrow> \<exists>out. apply_rules nz mode ws s = Inr out"
proof (induction ws arbitrary: s)
  case Nil
  show ?case by simp
next
  case (Cons w ws)
  from apply_rule_total [of nz mode w s] Cons(2) obtain s1 where "apply_rule nz mode w s = Inr s1" by auto
  with Cons show ?case by simp
qed

lemma compile_placeholder:
  "compile_re [32, 63, 92, 94, 92, 94, 92, 94]
     = Inr (Seq (Rep 0 (Some 1) (Lit 32)) (Seq (Lit 94) (Seq (Lit 94) (Seq (Lit 94) Emp))), 0)"
  by (simp add: compile_re_def starts_with_def mk_seq_def mk_alt_def is_digit_def is_ascii_letter_def)

lemma compile_spaces:
  "compile_re (asc '' {2,}'') = Inr (Seq (Rep 2 None (Lit 32)) Emp, 0)"
  by (simp add: compile_re_def asc_def starts_with_def mk_seq_def mk_alt_def parse_brace_def
      is_digit_def decimal_def MAXREPEAT_def)

lemma compile_spaces_group:
  "compile_re (asc '' {2,}(.)'') = Inr (Seq (Rep 2 None (Lit 32)) (Seq (Grp 1 (Seq Dot Emp)) Emp), 1)"
  by (simp add: compile_re_def asc_def starts_with_def mk_seq_def mk_alt_def parse_brace_def
      is_digit_def decimal_def MAXREPEAT_def)

lemma template_spaces:
  "parse_template n (asc ''    '') = Inr [TChr 32, TChr 32, TChr 32, TChr 32]"
  by (simp add: asc_def)

lemma strip_placeholder_total: "\<exists>out. strip_placeholder s = Inr out"
  by (simp add: strip_placeholder_def re_sub_def compile_placeholder)

lemma capitalization_total: "\<exists>out. capitalization upper capitalize s = Inr out"
  by (simp add: capitalization_def re_sub_def re_sub_call_def compile_spaces compile_spaces_group
      template_spaces)

lemma finish_total: "\<exists>out. finish upper capitalize anusvara_style replaced = Inr out"
proof -
  obtain r1 where r1: "strip_placeholder (str_replace [tshek] [32] replaced) = Inr r1"
    using strip_placeholder_total by blast
  obtain r3 where r3: "capitalization upper capitalize (del_a anusvara (del_a long_vowel r1)) = Inr r3"
    using capitalization_total by blast
  show ?thesis by (simp add: finish_def r1 vowel_cleanup_eq r3)
qed

lemma every_expression_fails_literal:
  assumes "tibetan w \<noteq> []" "every_expression_fails (tibetan w)"
  shows "apply_rule nz mode w s = Inr (str_replace (tibetan w) (replacement_of nz mode w) s)"
  using assms
  by (simp add: apply_rule_def Let_def every_expression_fails_def nam_suffix_def inherent_a_def
      general_replacement_def re_sub_def)

text \<open>
  C7, amended. For every rule list in which each call of \<^verbatim>\<open>re.sub\<close> made for a rule
  returns or raises \<^verbatim>\<open>re.error\<close> (so: no repetition count that overflows, nothing
  outside the embedded fragment), and for every input, the call returns a string. What
  is compiled in a sub-step is the expression built around the pattern, not the pattern:
  a rule for which the suffix expression, the first inherent-vowel expression and the
  pattern alone all fail to compile has exactly the effect of the literal substring
  replacement of its pattern.
\<close>

theorem malformed_rules_recovered:
  assumes "\<forall>word \<in> set (replacements self). rule_recoverable normalize_iast mode word"
  shows "(\<exists>out. transliterate normalize_tibetan normalize_iast upper self text mode capitalize
                  anusvara_style = Inr out)
       \<and> (\<forall>word \<in> set (replacements self). \<forall>replaced.
             tibetan word \<noteq> [] \<and> every_expression_fails (tibetan word) \<longrightarrow>
             apply_rule normalize_iast mode word replaced
               = Inr (str_replace (tibetan word) (replacement_of normalize_iast mode word) replaced))"
proof -
  from apply_rules_total [OF assms] obtain replaced where
    "apply_rules normalize_iast mode (replacements self) (normalize_tibetan text True) = Inr replaced"
    by blast
  then have "\<exists>out. transliterate normalize_tibetan normalize_iast upper self text mode capitalize
                  anusvara_style = Inr out"
    using finish_total by (simp add: transliterate_def)
  then show ?thesis using every_expression_fails_literal by blast
qed

text \<open>
  C7, as stated, fails. The pattern \<open>a[\<close> does not compile, but pasted
  into the first inherent-vowel expression it reads \<open>a[[ ... ]\<close>, a valid character
  set, so that sub-step is not skipped: on the text "a, tshek" it writes the replacement
  and a space, where the literal replacement of \<open>a[\<close> would change nothing. The
  call returns \<open>ka\<close>; skipping the sub-steps would give \<open>a\<close>.
\<close>

theorem bad_pattern_not_skipped:
  "compile_re (asc ''a['') = Inl ReError
   \<and> apply_rule (\<lambda>t. t) (asc ''iast'')
        \<lparr>tibetan = asc ''a['', transliteration = asc ''ka'', phonetics = []\<rparr> [97, tshek]
       = Inr (asc ''ka '')
   \<and> str_replace (asc ''a['') (asc ''ka'') [97, tshek] = [97, tshek]
   \<and> transliterate (\<lambda>t keep. t) (\<lambda>t. t) (\<lambda>c. [c])
        \<lparr>replacements = [\<lparr>tibetan = asc ''a['', transliteration = asc ''ka'', phonetics = []\<rparr>]\<rparr>
        [97, tshek] (asc ''iast'') False [0x1E43]
       = Inr (asc ''ka'')
   \<and> finish (\<lambda>c. [c]) False [0x1E43] (str_replace (asc ''a['') (asc ''ka'') [97, tshek])
       = Inr (asc ''a'')"
  by (simp add: eval_simps)

text \<open>
  A repetition count of \<open>2^32 - 1\<close> makes the regular-expression parser raise
  \<^verbatim>\<open>OverflowError\<close>, which \<^verbatim>\<open>except re.error\<close> does not catch: the call ends with it.
\<close>

lemma overflow_escapes:
  "transliterate (\<lambda>t keep. t) (\<lambda>t. t) (\<lambda>c. [c])
        \<lparr>replacements = [\<lparr>tibetan = asc ''a{4294967295}'', transliteration = asc ''ka'', phonetics = []\<rparr>]\<rparr>
        [97, tshek] (asc ''iast'') False [0x1E43]
     = Inl OverflowError"
  by (simp add: eval_simps)

theorem malformed_rules_recovered_witness:
  "transliterate (\<lambda>t keep. t) (\<lambda>t. t) (\<lambda>c. [c])
        \<lparr>replacements = [\<lparr>tibetan = asc ''('', transliteration = asc ''ka'', phonetics = []\<rparr>]\<rparr>
        (asc ''x(y'') (asc ''iast'') False [0x1E43]
     = Inr (asc ''xkay'')
   \<and> apply_rule (\<lambda>t. t) (asc ''iast'')
        \<lparr>tibetan = asc ''('', transliteration = asc ''ka'', phonetics = []\<rparr> (asc ''x(y'')
     = Inr (str_replace (asc ''('') (asc ''ka'') (asc ''x(y''))"
proof -
  let ?w = "\<lparr>tibetan = asc ''('', transliteration = asc ''ka'', phonetics = []\<rparr>"
  have r: "\<forall>word \<in> set (replacements \<lparr>replacements = [?w]\<rparr>). rule_recoverable (\<lambda>t. t) (asc ''iast'') word"
    by (simp add: rule_recoverable_def recoverable_def sub_raises_def eval_simps)
  have f: "tibetan ?w \<noteq> [] \<and> every_expression_fails (tibetan ?w)"
    by (simp add: every_expression_fails_def eval_simps)
  have e: "transliterate (\<lambda>t keep. t) (\<lambda>t. t) (\<lambda>c. [c]) \<lparr>replacements = [?w]\<rparr>
        (asc ''x(y'') (asc ''iast'') False [0x1E43] = Inr (asc ''xkay'')"
    by (simp add: eval_simps)
  from malformed_rules_recovered [OF r, of "\<lambda>t keep. t" "\<lambda>c. [c]" "asc ''x(y''" False "[0x1E43]"] f e
  show ?thesis by (simp add: replacement_of_def asc_def)
qed


section \<open>Input in which no pattern occurs\<close>

text \<open>
  A literal pattern pasted into one of the five expressions parses to "the characters of
  the pattern, then the rest of the expression", so none of them can match where the
  pattern does not occur, and a substitution without a match returns its subject.
\<close>

lemma literal_pattern_Cons:
  "literal_pattern (c # p) \<longleftrightarrow> c \<notin> special_chars \<and> literal_pattern p"
  by (auto simp: literal_pattern_def)

lemma parse_re_literal_char:
  "c \<notin> special_chars \<Longrightarrow>
   parse_re ((gid, alts, items) # st) n (c # rest) = parse_re ((gid, alts, Lit c # items) # st) n rest"
  by (simp add: special_chars_def)

lemma parse_re_literal:
  "literal_pattern p \<Longrightarrow>
   parse_re ((gid, alts, items) # st) n (p @ rest)
     = parse_re ((gid, alts, map Lit (rev p) @ items) # st) n rest"
proof (induction p arbitrary: items)
  case Nil
  show ?case by simp
next
  case (Cons c p)
  then have c: "c \<notin> special_chars" and p: "literal_pattern p"
    by (simp_all add: literal_pattern_Cons)
  show ?case
    using Cons.IH [OF p, of "Lit c # items"] parse_re_literal_char [OF c, of gid alts items st n "p @ rest"]
    by simp
qed

lemma foldl_lits:
  "foldl (\<lambda>acc item. Seq item acc) acc (map Lit (rev p)) = lits p acc"
  by (induction p arbitrary: acc) auto

lemma rep_ok_lits: "rep_ok (lits p r) = rep_ok r"
  by (induction p) auto

lemma compile_literal:
  assumes "literal_pattern p"
  shows "compile_re p = Inr (lits p Emp, 0)"
  using parse_re_literal [OF assms, of 0 "[]" "[]" "[]" 0 "[]"]
  by (simp add: compile_re_def mk_seq_def mk_alt_def foldl_lits rep_ok_lits)

lemma compile_boundary:
  assumes "literal_pattern p"
  shows "compile_re (boundary_regex p)
    = Inr (lits p (Seq (Cset False [(0x0F0B, 0x0F0B), (0x0F0D, 0x0F0D), (0x0F11, 0x0F11), (0x0F14, 0x0F14)]) Emp), 0)"
  by (simp add: compile_re_def boundary_regex_def boundary_markers_def parse_re_literal [OF assms]
      parse_set_def starts_with_def mk_seq_def mk_alt_def foldl_lits rep_ok_lits)

lemma compile_visarga:
  assumes "literal_pattern p"
  shows "compile_re (visarga_regex p) = Inr (lits p (Seq (Lit 0x0F7F) Emp), 0)"
  by (simp add: compile_re_def visarga_regex_def parse_re_literal [OF assms]
      mk_seq_def mk_alt_def foldl_lits rep_ok_lits)

lemma compile_vowel:
  assumes "literal_pattern p"
  shows "compile_re (vowel_regex p)
    = Inr (lits p (Seq (Grp 1 (Seq (Cset False
             [(0x0F71, 0x0F71), (0x0F72, 0x0F72), (0x0F74, 0x0F74), (0x0F7A, 0x0F7A),
              (0x0F7C, 0x0F7C), (0x0F7E, 0x0F7E), (0x0F80, 0x0F80)]) Emp)) Emp), 1)"
  by (simp add: compile_re_def vowel_regex_def vowel_markers_def parse_re_literal [OF assms]
      parse_set_def starts_with_def mk_seq_def mk_alt_def foldl_lits rep_ok_lits)

lemma compile_suffix:
  assumes "literal_pattern p"
  shows "compile_re (suffix_regex p)
    = Inr (Seq (Grp 1 (lits p (Seq (Rep 0 None (Cset True
             [(0x0F0B, 0x0F0B), (0x0F0D, 0x0F0D), (0x0F11, 0x0F11), (0x0F14, 0x0F14)])) Emp)))
            (Seq (Lit 0x0F0B) (Seq (Lit 0x0F53) (Seq (Lit 0x0F71) (Seq (Lit 0x0F7E) Emp)))), 1)"
proof -
  have q: "\<not> (case p @ 91 # l of [] \<Rightarrow> False | x # xa \<Rightarrow> x = 63)" for l
    using assms by (cases p) (auto simp: literal_pattern_def special_chars_def)
  show ?thesis
    by (simp add: compile_re_def suffix_regex_def boundary_markers_def parse_re_literal [OF assms]
        parse_set_def starts_with_def mk_seq_def mk_alt_def foldl_lits rep_ok_lits q)
qed

lemma rmatch_lits:
  "rmatch (lits p r) s g = (if prefix p s then rmatch r (drop (length p) s) g else [])"
proof (induction p arbitrary: s)
  case Nil
  show ?case by simp
next
  case (Cons c p)
  show ?case by (cases s) (auto simp: Cons.IH)
qed

lemma sub_loop_no_match:
  "(\<And>s'. suffix s' s \<Longrightarrow> rmatch r s' Map.empty = []) \<Longrightarrow> sub_loop r f must_advance s = s"
proof (induction s arbitrary: must_advance)
  case Nil
  have "rmatch r [] Map.empty = []" using Nil by simp
  then show ?case by (subst sub_loop.simps) simp
next
  case (Cons c cs)
  have "rmatch r (c # cs) Map.empty = []" using Cons(2) by simp
  moreover have "sub_loop r f False cs = cs" using Cons by (simp add: suffix_Cons)
  ultimately show ?case by (subst sub_loop.simps) simp
qed

lemma not_sublist_prefix:
  assumes "\<not> sublist p s" "suffix s' s"
  shows "\<not> prefix p s'"
proof
  assume "prefix p s'"
  then obtain z where "s' = p @ z" by (auto simp: prefix_def)
  moreover from assms(2) obtain y where "s = y @ s'" by (auto simp: suffix_def)
  ultimately have "sublist p s" by (auto simp: sublist_def)
  with assms(1) show False by simp
qed


lemma parse_template_Cons:
  "c \<noteq> 92 \<Longrightarrow> parse_template n (c # t) = map_sum id (Cons (TChr c)) (parse_template n t)"
  by (cases t) auto

lemma parse_template_plain: "92 \<notin> set t \<Longrightarrow> parse_template n t = Inr (map TChr t)"
  by (induction t) (auto simp: parse_template_Cons)

lemma parse_template_group_suffix:
  "92 \<notin> set b \<Longrightarrow> parse_template 1 (b @ [92, 49]) = Inr (map TChr b @ [TGrp 1])"
  by (induction b) (auto simp: parse_template_Cons template_escape_def is_digit_def)

lemma parse_template_suffix_repl: "\<exists>t. parse_template 1 (suffix_repl mode) = Inr t"
  by (simp add: suffix_repl_def asc_def template_escape_def is_digit_def)

lemma re_sub_no_match:
  assumes "compile_re p = Inr (r, n)" "parse_template n t = Inr items"
    and "\<And>s'. suffix s' s \<Longrightarrow> rmatch r s' Map.empty = []"
  shows "re_sub p t s = Inr s"
  using assms(1,2) sub_loop_no_match [of s r, OF assms(3)] by (simp add: re_sub_def)

lemma apply_rule_no_match:
  assumes lit: "literal_pattern (tibetan w)" and occ: "\<not> sublist (tibetan w) s"
    and bs: "92 \<notin> set (replacement_of nz mode w)"
  shows "apply_rule nz mode w s = Inr s"
proof (cases "tibetan w = []")
  case True
  then show ?thesis by (simp add: apply_rule_def)
next
  case False
  let ?p = "tibetan w"
  let ?r = "replacement_of nz mode w"
  have np: "\<not> prefix ?p s'" if "suffix s' s" for s'
    using not_sublist_prefix [OF occ that] .
  obtain ts where ts: "parse_template 1 (suffix_repl mode) = Inr ts"
    using parse_template_suffix_repl by blast
  have a: "re_sub (suffix_regex ?p) (suffix_repl mode) s = Inr s"
    by (rule re_sub_no_match [OF compile_suffix [OF lit] ts]) (simp add: rmatch_lits np)
  have b1: "re_sub (boundary_regex ?p) (?r @ [32]) s = Inr s"
    by (rule re_sub_no_match [OF compile_boundary [OF lit] parse_template_plain])
       (use bs in \<open>simp_all add: rmatch_lits np\<close>)
  have bs': "92 \<notin> set (visarga_repl mode (butlast ?r))"
    using bs by (auto simp: visarga_repl_def asc_def dest: in_set_butlastD)
  have b2: "re_sub (visarga_regex ?p) (visarga_repl mode (butlast ?r)) s = Inr s"
    by (rule re_sub_no_match [OF compile_visarga [OF lit] parse_template_plain [OF bs']])
       (simp add: rmatch_lits np)
  have bs'': "92 \<notin> set (butlast ?r)" using bs by (auto dest: in_set_butlastD)
  have b3: "re_sub (vowel_regex ?p) (butlast ?r @ [92, 49]) s = Inr s"
    by (rule re_sub_no_match [OF compile_vowel [OF lit] parse_template_group_suffix [OF bs'']])
       (simp add: rmatch_lits np)
  have c: "re_sub ?p ?r s = Inr s"
    by (rule re_sub_no_match [OF compile_literal [OF lit] parse_template_plain [OF bs]])
       (simp add: rmatch_lits np)
  show ?thesis
    using False by (simp add: apply_rule_def Let_def nam_suffix_def inherent_a_def
        general_replacement_def a b1 b2 b3 c)
qed

lemma apply_rule_empty: "tibetan w = [] \<Longrightarrow> apply_rule nz mode w s = Inr s"
  by (simp add: apply_rule_def)

lemma apply_rules_no_match:
  assumes "\<forall>w \<in> set ws. tibetan w \<noteq> [] \<longrightarrow>
             literal_pattern (tibetan w) \<and> \<not> sublist (tibetan w) s
             \<and> 92 \<notin> set (replacement_of nz mode w)"
  shows "apply_rules nz mode ws s = Inr s"
  using assms
proof (induction ws)
  case Nil
  show ?case by simp
next
  case (Cons w ws)
  have "apply_rule nz mode w s = Inr s"
    using Cons.prems apply_rule_empty [of w nz mode s] apply_rule_no_match [of w s nz mode]
    by (cases "tibetan w = []") auto
  then show ?case using Cons by simp
qed

lemma rmatch_rep_zero: "rmatch (Rep 0 (Some 0) r) s g = [(s, g)]"
  by (subst rmatch.simps(8)) simp

lemma rmatch_opt_lit:
  "rmatch (Rep 0 (Some (Suc 0)) (Lit c)) s g =
     (case s of [] \<Rightarrow> [(s, g)] | x # xs \<Rightarrow> if x = c then [(xs, g), (s, g)] else [(s, g)])"
  by (subst rmatch.simps(8)) (simp add: rmatch_rep_zero split: list.splits)

lemma placeholder_no_match:
  assumes "\<not> prefix [94, 94, 94] s" "\<not> prefix [94, 94, 94] (tl s)"
  shows "rmatch (Seq (Rep 0 (Some 1) (Lit 32)) (Seq (Lit 94) (Seq (Lit 94) (Seq (Lit 94) Emp)))) s g = []"
  using assms by (auto simp: rmatch_opt_lit split: list.splits if_splits)

lemma strip_placeholder_clean:
  assumes "\<not> sublist [94, 94, 94] s"
  shows "strip_placeholder s = Inr s"
proof -
  have "rmatch (Seq (Rep 0 (Some 1) (Lit 32)) (Seq (Lit 94) (Seq (Lit 94) (Seq (Lit 94) Emp)))) s' Map.empty = []"
    if "suffix s' s" for s'
  proof -
    have 1: "\<not> prefix [94, 94, 94] s'" using not_sublist_prefix [OF assms that] .
    have "suffix (tl s') s" using that suffix_order.trans suffix_tl by blast
    then have 2: "\<not> prefix [94, 94, 94] (tl s')" using not_sublist_prefix [OF assms] by blast
    show ?thesis by (rule placeholder_no_match [OF 1 2])
  qed
  then show ?thesis
    unfolding strip_placeholder_def
    by (intro re_sub_no_match [OF compile_placeholder]) simp_all
qed

lemma spaces_no_match:
  assumes "\<not> prefix [32, 32] s"
  shows "rmatch (Seq (Rep 2 None (Lit 32)) Emp) s g = []"
proof -
  have "rmatch (Rep 2 None (Lit 32)) s g = []"
  proof (cases s)
    case Nil
    then show ?thesis by (subst rmatch.simps(8)) simp
  next
    case (Cons x xs)
    show ?thesis
    proof (cases "x = 32")
      case False
      with Cons show ?thesis by (subst rmatch.simps(8)) simp
    next
      case True
      with Cons assms have xs: "\<not> prefix [32] xs" by simp
      have "rmatch (Rep 1 None (Lit 32)) xs g = []"
        using xs by (subst rmatch.simps(8)) (auto split: list.splits)
      with Cons True show ?thesis by (subst rmatch.simps(8)) (simp add: numeral_2_eq_2)
    qed
  qed
  then show ?thesis by simp
qed

lemma capitalization_clean:
  assumes "\<not> sublist [32, 32] s"
  shows "capitalization upper False s = Inr s"
proof -
  have "rmatch (Seq (Rep 2 None (Lit 32)) Emp) s' Map.empty = []" if "suffix s' s" for s'
    using spaces_no_match [OF not_sublist_prefix [OF assms that]] .
  then show ?thesis
    unfolding capitalization_def
    by (simp add: re_sub_no_match [OF compile_spaces template_spaces])
qed

text \<open>
  C3, amended. Let the rule patterns be literal strings that do not occur in the
  normalized input (empty patterns are skipped anyway) and the replacements be free of
  backslashes, and let \<open>t\<close> be the normalized input with every tshek replaced by a
  space. If \<open>t\<close> contains no \<open>^^^\<close>, no two consecutive spaces, no \<open>a\<close> immediately
  before one of the nine letters of the vowel-collision cleanup, and the anusvara style
  is U+1E43 or \<open>t\<close> has no U+1E43, then the call with \<open>capitalize = False\<close> returns
  \<open>t\<close> with leading and trailing whitespace stripped.
\<close>

theorem unmatched_input_passes_through:
  assumes "\<forall>w \<in> set (replacements self). tibetan w \<noteq> [] \<longrightarrow>
             literal_pattern (tibetan w) \<and> \<not> sublist (tibetan w) (normalize_tibetan text True)
             \<and> 92 \<notin> set (replacement_of normalize_iast mode w)"
    and "t = str_replace [tshek] [32] (normalize_tibetan text True)"
    and "\<not> sublist [94, 94, 94] t" and "\<not> sublist [32, 32] t"
    and "\<not> a_before long_vowel t" and "\<not> a_before anusvara t"
    and "anusvara_style = [0x1E41] \<longrightarrow> 0x1E43 \<notin> set t"
  shows "transliterate normalize_tibetan normalize_iast upper self text mode False anusvara_style
           = Inr (strip t)"
proof -
  have loop: "apply_rules normalize_iast mode (replacements self) (normalize_tibetan text True)
                = Inr (normalize_tibetan text True)"
    using assms(1) by (rule apply_rules_no_match)
  have p: "strip_placeholder t = Inr t" using assms(3) by (rule strip_placeholder_clean)
  have v: "vowel_cleanup t = Inr t"
    by (simp add: vowel_cleanup_eq del_a_fixed [OF assms(5)] del_a_fixed [OF assms(6)])
  have c: "capitalization upper False t = Inr t" using assms(4) by (rule capitalization_clean)
  have a: "(if anusvara_style = [0x1E41] then str_replace [0x1E43] [0x1E41] t else t) = t"
  proof (cases "anusvara_style = [0x1E41]")
    case True
    with assms(7) have "0x1E43 \<notin> set t" by simp
    then have "map (\<lambda>x. if x = 0x1E43 then 0x1E41 else x) t = t"
      by (induction t) auto
    with True show ?thesis by (simp add: str_replace_single)
  next
    case False
    then show ?thesis by simp
  qed
  have fin: "finish upper False anusvara_style (normalize_tibetan text True) = Inr (strip t)"
    by (simp add: finish_def assms(2) [symmetric] p v c a)
  show ?thesis by (simp add: transliterate_def loop fin)
qed


text \<open>
  C3, as stated, fails: the steps after the rule loop run on every input. With the
  \<open>vajra\<close> rule, whose pattern does not occur in "U+0F40, two spaces, U+0F41", the
  call returns the two letters four spaces apart, not the input unchanged.
\<close>

theorem unmatched_input_counterexample:
  "\<not> sublist [0x0F56, 0x0F5B, 0x0FB2] [0x0F40, 32, 32, 0x0F41 :: nat]
   \<and> transliterate (\<lambda>t keep. t) (\<lambda>t. t) (\<lambda>c. [c])
        \<lparr>replacements = [\<lparr>tibetan = [0x0F56, 0x0F5B, 0x0FB2],
                           transliteration = asc ''vajra'', phonetics = []\<rparr>]\<rparr>
        [0x0F40, 32, 32, 0x0F41] (asc ''iast'') False [0x1E43]
       = Inr [0x0F40, 32, 32, 32, 32, 0x0F41]
   \<and> strip (str_replace [tshek] [32] [0x0F40, 32, 32, 0x0F41]) = [0x0F40, 32, 32, 0x0F41]"
  by (simp add: eval_simps sublist_Cons_right)

theorem unmatched_input_passes_through_witness:
  "transliterate (\<lambda>t keep. t) (\<lambda>t. t) (\<lambda>c. [c])
        \<lparr>replacements = [\<lparr>tibetan = [0x0F56, 0x0F5B, 0x0FB2],
                           transliteration = asc ''vajra'', phonetics = []\<rparr>]\<rparr>
        [32, 0x0F40, tshek, 0x0F41, tshek] (asc ''iast'') False [0x1E41]
     = Inr [0x0F40, 32, 0x0F41]"
proof -
  have "transliterate (\<lambda>t keep. t) (\<lambda>t. t) (\<lambda>c. [c])
        \<lparr>replacements = [\<lparr>tibetan = [0x0F56, 0x0F5B, 0x0FB2],
                           transliteration = asc ''vajra'', phonetics = []\<rparr>]\<rparr>
        [32, 0x0F40, tshek, 0x0F41, tshek] (asc ''iast'') False [0x1E41]
     = Inr (strip [32, 0x0F40, 32, 0x0F41, 32])"
    by (rule unmatched_input_passes_through)
       (simp_all add: literal_pattern_def special_chars_def sublist_Cons_right replacement_of_def
         asc_def long_vowel_def anusvara_def)
  then show ?thesis by (simp add: strip_def is_space_def)
qed


end
